theory Spec2Isabelle
  imports
    Complex_Main
    "HOL-Library.Char_ord"
    "HOL-Library.List_Lexorder"
    "HOL-Library.Multiset"
    "HOL-Library.Log_Nat"
    "HOL-Library.Word"
begin

section \<open>Display helpers of the render package (internal/render/helpers.go)\<close>

text \<open>
  A Go \<open>string\<close> is a sequence of bytes; it is a \<^typ>\<open>string\<close> here, and \<open>len\<close> is
  \<^const>\<open>length\<close>. The order on strings is Go's byte-wise lexicographic comparison
  (\<open>Char_ord\<close> with \<open>List_Lexorder\<close>), which is what \<open>sort.Strings\<close> sorts by.
\<close>

subsection \<open>Key/value serialisation\<close>

text \<open>
  A \<open>map[string]string\<close> is an association list with distinct keys. The order of the
  list is the order in which \<open>range\<close> visits the entries, which Go leaves unspecified:
  two lists with the same set of pairs are the same map visited in two orders.
\<close>

type_synonym label_map = "(string \<times> string) list"

definition strings_Join :: "string list \<Rightarrow> string \<Rightarrow> string" where
  "strings_Join elems sep = (case elems of [] \<Rightarrow> [] | e # es \<Rightarrow> e @ concat (map (\<lambda>x. sep @ x) es))"

definition selector_items :: "label_map \<Rightarrow> string list" where
  \<comment> \<open>the slice \<open>s\<close> of \<open>toSelector\<close> after its loop\<close>
  "selector_items m = map (\<lambda>(k, v). k @ ''='' @ v) m"

definition toSelector :: "label_map \<Rightarrow> string" where
  "toSelector m = strings_Join (selector_items m) '',''"

definition index_str :: "label_map \<Rightarrow> string \<Rightarrow> string" where
  \<comment> \<open>\<open>m[k]\<close>: the zero value when the key is absent\<close>
  "index_str m k = (case map_of m k of None \<Rightarrow> [] | Some v \<Rightarrow> v)"

fun mapToStr_loop :: "label_map \<Rightarrow> nat \<Rightarrow> string list \<Rightarrow> nat \<Rightarrow> string \<Rightarrow> string" where
  "mapToStr_loop m n [] i bb = bb"
| "mapToStr_loop m n (k # ks) i bb =
     (let bb1 = bb @ (k @ ''='' @ index_str m k);
          bb2 = (if int i < int n - 1 then bb1 @ '','' else bb1)
      in mapToStr_loop m n ks (i + 1) bb2)"

definition mapToStr :: "label_map \<Rightarrow> string" where
  "mapToStr m =
     (if length m = 0 then []
      else let kk = sort (map fst m) in mapToStr_loop m (length kk) kk 0 [])"

text \<open>
  The argument of \<open>mapToIfc\<close> has the dynamic type \<open>any\<close>: nil, a \<open>map[string]any\<close>, or
  something else. A value of the map is a string or not.
\<close>

datatype any_value = AString string | ANotString

datatype any = ANil | AMap "(string \<times> any_value) list" | ANotMap

fun mapToIfc_loop ::
  "(string \<times> any_value) list \<Rightarrow> nat \<Rightarrow> string list \<Rightarrow> nat \<Rightarrow> string \<Rightarrow> string" where
  "mapToIfc_loop mm n [] i s = s"
| "mapToIfc_loop mm n (k # ks) i s =
     (case map_of mm k of
        Some (AString str) \<Rightarrow>
          (let s1 = s @ (k @ ''='' @ str);
               s2 = (if int i < int n - 1 then s1 @ '' '' else s1)
           in mapToIfc_loop mm n ks (i + 1) s2)
      | _ \<Rightarrow> mapToIfc_loop mm n ks (i + 1) s)"

definition mapToIfc :: "any \<Rightarrow> string" where
  "mapToIfc m =
     (case m of
        ANil \<Rightarrow> []
      | ANotMap \<Rightarrow> []
      | AMap mm \<Rightarrow>
          if length mm = 0 then []
          else let kk = sort (map fst mm) in mapToIfc_loop mm (length kk) kk 0 [])"

subsection \<open>Sentinels and ages\<close>

text \<open>
  The sentinel strings \<open>UnknownValue\<close>, \<open>NAValue\<close> and \<open>ZeroValue\<close> are constants of the
  package declared in another file; the functions below take them as parameters, under
  their names. \<open>time.Parse\<close> with the RFC3339 layout, \<open>duration.HumanDuration\<close> and the
  clock read by \<open>time.Since\<close> belong to libraries and to the environment: they are
  parameters too (\<open>parse\<close> gives \<open>None\<close> where \<open>time.Parse\<close> returns an error).

  A \<open>time.Time\<close> is an instant counted from January 1 of year 1, 00:00:00 UTC, in
  seconds and nanoseconds; \<open>IsZero\<close> holds of that instant only. A \<open>time.Duration\<close> is
  a count of nanoseconds in an int64, and \<open>Sub\<close> saturates at its ends.
\<close>

record go_time =
  sec :: int
  nsec :: int

definition IsZero :: "go_time \<Rightarrow> bool" where
  "IsZero t \<longleftrightarrow> sec t = 0 \<and> nsec t = 0"

definition time_Sub :: "go_time \<Rightarrow> go_time \<Rightarrow> int" where
  "time_Sub t u =
     (let d = (sec t - sec u) * 1000000000 + (nsec t - nsec u)
      in if d < - (2 ^ 63) then - (2 ^ 63) else if 2 ^ 63 - 1 < d then 2 ^ 63 - 1 else d)"

definition ToAge :: "string \<Rightarrow> (int \<Rightarrow> string) \<Rightarrow> go_time \<Rightarrow> go_time \<Rightarrow> string" where
  "ToAge UnknownValue HumanDuration now t =
     (if IsZero t then UnknownValue else HumanDuration (time_Sub now t))"

definition toAgeHuman ::
  "string \<Rightarrow> string \<Rightarrow> (string \<Rightarrow> go_time option) \<Rightarrow> (int \<Rightarrow> string) \<Rightarrow> go_time \<Rightarrow> string \<Rightarrow> string"
  where
  "toAgeHuman UnknownValue NAValue parse HumanDuration now s =
     (if s = [] then UnknownValue
      else case parse s of
             None \<Rightarrow> NAValue
           | Some t \<Rightarrow> HumanDuration (time_Sub now t))"

subsection \<open>float64 arithmetic\<close>

text \<open>
  A finite float64 is the real number it denotes. \<open>f64\<close> rounds a real to the nearest
  number with a 53-bit significand, ties to the even significand, which is what every
  IEEE 754 operation of Go does to its exact result; each operation rounds on its own
  (no fused multiply-add, as the compiler has it on amd64). The exponent is not bounded: the
  values of these functions lie between \<open>2\<^sup>-\<^sup>6\<^sup>3\<close> and \<open>2\<^sup>7\<^sup>2\<close> in magnitude, far
  from overflow and from the subnormal range, and no operation here produces a
  negative zero, an infinity or a NaN from the inputs the functions receive.
\<close>

definition pow2 :: "int \<Rightarrow> real" where
  "pow2 k = (if 0 \<le> k then 2 ^ nat k else 1 / 2 ^ nat (- k))"

definition ilog2 :: "real \<Rightarrow> int" where
  \<comment> \<open>the binary exponent of a positive real: \<open>2\<^sup>e \<le> x < 2\<^sup>e\<^sup>+\<^sup>1\<close>\<close>
  "ilog2 x = (if 1 \<le> x then bitlen \<lfloor>x\<rfloor> - 1 else - bitlen (\<lceil>1 / x\<rceil> - 1))"

definition round_even :: "real \<Rightarrow> int" where
  "round_even x =
     (let f = \<lfloor>x\<rfloor>; d = x - of_int f
      in if d < 1 / 2 then f else if 1 / 2 < d then f + 1 else if even f then f else f + 1)"

definition f64 :: "real \<Rightarrow> real" where
  "f64 x =
     (if x = 0 then 0
      else let e = ilog2 \<bar>x\<bar>; m = round_even (\<bar>x\<bar> * pow2 (52 - e))
           in sgn x * of_int m * pow2 (e - 52))"

definition fadd :: "real \<Rightarrow> real \<Rightarrow> real" where
  "fadd x y = f64 (x + y)"

definition fmul :: "real \<Rightarrow> real \<Rightarrow> real" where
  "fmul x y = f64 (x * y)"

definition fdiv :: "real \<Rightarrow> real \<Rightarrow> real" where
  "fdiv x y = f64 (x / y)"

definition math_Floor :: "real \<Rightarrow> real" where
  "math_Floor x = of_int \<lfloor>x\<rfloor>"

definition math_Pow :: "real \<Rightarrow> nat \<Rightarrow> real" where
  \<comment> \<open>\<open>math.Pow\<close> at an exponent that is a natural number, which is how \<open>humanateBytes\<close> calls it\<close>
  "math_Pow x n = f64 (x ^ n)"

subsection \<open>Formatting numbers\<close>

fun itoa_nat :: "nat \<Rightarrow> string" where
  "itoa_nat n =
     (if n < 10 then [char_of (48 + n)]
      else itoa_nat (n div 10) @ [char_of (48 + n mod 10)])"

declare itoa_nat.simps [simp del]

definition format_f :: "nat \<Rightarrow> real \<Rightarrow> string" where
  \<comment> \<open>the verb \<open>%.Nf\<close>: the exact value rounded to \<open>prec\<close> decimals, ties to even\<close>
  "format_f prec x =
     (let n = nat (round_even (\<bar>x\<bar> * 10 ^ prec));
          ds = itoa_nat n;
          ds1 = replicate (prec + 1 - length ds) (CHR ''0'') @ ds;
          k = length ds1 - prec
      in (if x < 0 then ''-'' else []) @ take k ds1 @ (if prec = 0 then [] else ''.'' @ drop k ds1))"

definition HasPrefix :: "string \<Rightarrow> string \<Rightarrow> bool" where
  "HasPrefix s p \<longleftrightarrow> length p \<le> length s \<and> take (length p) s = p"

definition HasSuffix :: "string \<Rightarrow> string \<Rightarrow> bool" where
  "HasSuffix s p \<longleftrightarrow> length p \<le> length s \<and> drop (length s - length p) s = p"

definition TrimPrefix :: "string \<Rightarrow> string \<Rightarrow> string" where
  "TrimPrefix s p = (if HasPrefix s p then drop (length p) s else s)"

definition TrimSuffix :: "string \<Rightarrow> string \<Rightarrow> string" where
  "TrimSuffix s p = (if HasSuffix s p then take (length s - length p) s else s)"

subsection \<open>Byte counts\<close>

text \<open>
  An \<open>int64\<close> is a 64-bit word read by \<^const>\<open>sint\<close>; the conversion \<open>uint64(v)\<close> keeps the
  bits and reads them by \<^const>\<open>unat\<close>. \<open>math.Log\<close> is a library function whose results
  the language does not fix bit by bit: it is the parameter \<open>Log\<close>, with finite values
  and a logarithm of the base that is not zero. Indexing the suffix table out of range
  panics.
\<close>

datatype panic = IndexOutOfRange

definition logn :: "(real \<Rightarrow> real) \<Rightarrow> real \<Rightarrow> real \<Rightarrow> real" where
  "logn Log n b = fdiv (Log n) (Log b)"

definition scale_exponent :: "(real \<Rightarrow> real) \<Rightarrow> nat \<Rightarrow> real \<Rightarrow> int" where
  \<comment> \<open>\<open>int(e)\<close> for \<open>e := math.Floor(logn(float64(s), base))\<close>\<close>
  "scale_exponent Log s base = \<lfloor>math_Floor (logn Log (f64 (real s)) base)\<rfloor>"

definition humanateBytes :: "(real \<Rightarrow> real) \<Rightarrow> nat \<Rightarrow> real \<Rightarrow> string list \<Rightarrow> panic + string" where
  "humanateBytes Log s base sizes =
     (if s < 10 then Inr (itoa_nat s @ '' B'')
      else let e = scale_exponent Log s base
           in if e < 0 \<or> int (length sizes) \<le> e then Inl IndexOutOfRange
              else let suffix = sizes ! nat e;
                       val = fdiv (math_Floor
                                (fadd (fmul (fdiv (f64 (real s)) (math_Pow base (nat e))) 10) (1 / 2))) 10;
                       valStr = format_f (if val < 10 then 1 else 0) val
                   in Inr (TrimSuffix valStr ''.0'' @ suffix))"

definition suffixes :: "string list" where
  "suffixes = ['''', ''K'', ''M'', ''G'', ''T'', ''P'', ''E'']"

definition humanizeBytes :: "(real \<Rightarrow> real) \<Rightarrow> string \<Rightarrow> 64 word \<Rightarrow> panic + string" where
  "humanizeBytes Log ZeroValue v =
     (if v = 0 then Inr ZeroValue else humanateBytes Log (unat v) 1024 suffixes)"

definition pct_of :: "64 word \<Rightarrow> 64 word \<Rightarrow> string" where
  \<comment> \<open>\<open>fmt.Sprintf("(%.0f%%)", float64(v) / float64(l) * 100)\<close>\<close>
  "pct_of v l =
     ''('' @ format_f 0 (fmul (fdiv (f64 (real_of_int (sint v))) (f64 (real_of_int (sint l)))) 100) @ ''%)''"

definition memPct :: "(real \<Rightarrow> real) \<Rightarrow> string \<Rightarrow> 64 word \<Rightarrow> 64 word \<Rightarrow> panic + string" where
  "memPct Log ZeroValue v l =
     (if sint l \<le> 0 then humanizeBytes Log ZeroValue v
      else case humanizeBytes Log ZeroValue v of
             Inl p \<Rightarrow> Inl p
           | Inr vStr \<Rightarrow>
               (case humanizeBytes Log ZeroValue l of
                  Inl p \<Rightarrow> Inl p
                | Inr lStr \<Rightarrow> Inr (vStr @ ''/'' @ lStr @ pct_of v l)))"

text \<open>
  What the proofs assume of \<open>math.Log\<close>: on arguments from 1 up, its result is within a
  relative error of \<open>1/1024\<close> of the natural logarithm. An implementation with an error
  below one unit in the last place, as the documented ones, is within \<open>2\<^sup>-\<^sup>5\<^sup>2\<close>.
\<close>

definition Log_accurate :: "(real \<Rightarrow> real) \<Rightarrow> bool" where
  "Log_accurate Log \<longleftrightarrow> (\<forall>x. 1 \<le> x \<longrightarrow> \<bar>Log x - ln x\<bar> \<le> ln x / 1024)"

text \<open>
  For the examples, \<open>math.Log\<close> is taken to be the correctly rounded natural logarithm:
  the float64 nearest to the logarithm of its argument. The Taylor polynomial
  \<open>exp_poly\<close> of the exponential serves to enclose \<open>ln 2\<close> between two rationals.
\<close>

definition rounded_ln :: "real \<Rightarrow> real" where
  "rounded_ln x = f64 (ln x)"

definition exp_poly :: "real \<Rightarrow> real" where
  "exp_poly x = (\<Sum>m<20. x ^ m / fact m)"

subsection \<open>Thousandths\<close>

definition decimal :: "64 word \<Rightarrow> string" where
  "decimal v =
     (let vf0 = fdiv (f64 (real_of_int (sint v))) 1000;
          vf = (if vf0 < 0 then 0 else vf0)
      in if vf < f64 (1 / 100) then ''0''
         else if vf < 1 then
           (let ret = ''.'' @ TrimPrefix (format_f 2 vf) ''0.''
            in if length ret = 3 \<and> ret ! 1 \<noteq> CHR ''0'' then TrimSuffix ret ''0'' else ret)
         else if vf < 10 then TrimSuffix (format_f 1 vf) ''.0''
         else format_f 0 vf)"

definition decimalPct :: "64 word \<Rightarrow> 64 word \<Rightarrow> string" where
  "decimalPct v l =
     (if sint l \<le> 0 then decimal v
      else decimal v @ ''/'' @ decimal l @ pct_of v l)"

subsection \<open>Fitting a string to a column\<close>

text \<open>
  \<open>Pad\<close> compares \<open>len(s)\<close>, a number of bytes, with the width, and \<open>Truncate\<close> measures
  cells. To have both, a string that holds valid UTF-8 is the list of its code points:
  \<open>len\<close> adds up the lengths of their encodings, \<open>StringWidth\<close> their widths in cells.
  The width of a code point comes from the tables of the package go-runewidth, which are
  not part of these sources: \<open>RuneWidth\<close> is a parameter. The width is a Go \<open>int\<close>, a
  64-bit word read by \<^const>\<open>sint\<close>.

  Modelled from the spec: \<open>runewidth.Truncate\<close>, which \<open>Truncate\<close> calls, belongs to the
  package go-runewidth and is not under src/. It is the truncation of section 4.6: a
  string that fits the width is returned as it is; otherwise the tail (the ellipsis) is
  appended to the longest prefix whose cells, with those of the tail, fit the width. The
  room left for the prefix is computed by the subtraction \<open>w - StringWidth(tail)\<close> on
  \<open>int\<close>, and each code point is taken as a glyph of its own.
\<close>

type_synonym rune = nat

type_synonym utf8_string = "rune list"

definition utf8_len :: "rune \<Rightarrow> nat" where
  "utf8_len r = (if r < 0x80 then 1 else if r < 0x800 then 2 else if r < 0x10000 then 3 else 4)"

definition len :: "utf8_string \<Rightarrow> int" where
  "len s = int (sum_list (map utf8_len s))"

definition StringWidth :: "(rune \<Rightarrow> nat) \<Rightarrow> utf8_string \<Rightarrow> int" where
  "StringWidth RuneWidth s = int (sum_list (map RuneWidth s))"

definition narrow :: "rune \<Rightarrow> nat" where
  \<comment> \<open>the table of a terminal on which every code point takes one cell\<close>
  "narrow r = 1"

fun Truncate_loop :: "(rune \<Rightarrow> nat) \<Rightarrow> int \<Rightarrow> int \<Rightarrow> utf8_string \<Rightarrow> utf8_string" where
  "Truncate_loop RuneWidth w width [] = []"
| "Truncate_loop RuneWidth w width (r # rs) =
     (if width + int (RuneWidth r) > w then []
      else r # Truncate_loop RuneWidth w (width + int (RuneWidth r)) rs)"

definition runewidth_Truncate ::
  "(rune \<Rightarrow> nat) \<Rightarrow> utf8_string \<Rightarrow> 64 word \<Rightarrow> utf8_string \<Rightarrow> utf8_string" where
  \<comment> \<open>Modelled from the spec: \<open>runewidth.Truncate\<close> is not under src/\<close>
  "runewidth_Truncate RuneWidth s w tail =
     (if StringWidth RuneWidth s \<le> sint w then s
      else let w1 = w - word_of_int (StringWidth RuneWidth tail)
           in Truncate_loop RuneWidth (sint w1) 0 s @ tail)"

definition SemigraphicsHorizontalEllipsis :: rune where
  \<comment> \<open>the constant of tview: the horizontal ellipsis, U+2026\<close>
  "SemigraphicsHorizontalEllipsis = 0x2026"

definition Truncate :: "(rune \<Rightarrow> nat) \<Rightarrow> utf8_string \<Rightarrow> 64 word \<Rightarrow> utf8_string" where
  "Truncate RuneWidth str width =
     runewidth_Truncate RuneWidth str width [SemigraphicsHorizontalEllipsis]"

definition Pad :: "(rune \<Rightarrow> nat) \<Rightarrow> utf8_string \<Rightarrow> 64 word \<Rightarrow> utf8_string" where
  "Pad RuneWidth s width =
     (if len s = sint width then s
      else if len s > sint width then Truncate RuneWidth s width
      else s @ replicate (nat (sint width - len s)) 0x20)"

subsection \<open>Fitting any string to a column\<close>

text \<open>
  A Go string is a sequence of bytes, valid UTF-8 or not, and go-runewidth measures and
  cuts it by grapheme clusters (a letter with its combining marks, an emoji with its
  modifier), not by code points. For the properties that range over every string, a
  string is the list of its bytes and \<open>len\<close> is \<^const>\<open>length\<close>. The segmentation
  (package uniseg) and the width tables are not part of these sources; they are
  parameters: \<open>Graphemes s\<close> is the list of the clusters of \<open>s\<close> in order, each one the
  bytes it covers, and \<open>GraphemeWidth g\<close> is the number of cells of the cluster \<open>g\<close>.
  \<open>grapheme_clusters\<close> states what the proofs use of them:

    \<^item> the clusters of a string, put together, are the string;
    \<^item> no cluster is wider than two cells, and none has more cells than bytes;
    \<^item> the ellipsis is at most two cells wide;
    \<^item> the ellipsis written after the first \<open>k\<close> clusters of a string adds at most its
      own cells to theirs.

  Modelled from the spec: \<open>runewidth.Truncate\<close> belongs to the package go-runewidth and
  is not under src/. It returns a string that fits the width as it is. Otherwise it
  subtracts the width of the tail from the width, on \<open>int\<close>; it walks the clusters and
  adds up their cells as long as they fit what is left; \<open>pos\<close> is the byte offset of the
  first cluster that does not fit, or \<open>len(s)\<close> when all of them fit; the result is
  \<open>s[:pos]\<close> followed by the tail.

  \<open>utf8_clusters\<close> and \<open>one_cell\<close> are an instance: a cluster is a byte with the UTF-8
  continuation bytes that follow it, that is one code point of a valid string, and
  takes one cell. On a string of ASCII characters and ellipses this is the segmentation
  and the width of the library.
\<close>

definition StringWidth_bytes :: "(string \<Rightarrow> string list) \<Rightarrow> (string \<Rightarrow> nat) \<Rightarrow> string \<Rightarrow> int" where
  \<comment> \<open>Modelled from the spec: \<open>runewidth.StringWidth\<close> is not under src/\<close>
  "StringWidth_bytes Graphemes GraphemeWidth s = int (sum_list (map GraphemeWidth (Graphemes s)))"

fun Truncate_pos :: "(string \<Rightarrow> nat) \<Rightarrow> int \<Rightarrow> int \<Rightarrow> nat \<Rightarrow> nat \<Rightarrow> string list \<Rightarrow> nat" where
  \<comment> \<open>the loop of \<open>runewidth.Truncate\<close>: \<open>start\<close> is the byte offset of the next cluster\<close>
  "Truncate_pos GraphemeWidth w width start pos [] = pos"
| "Truncate_pos GraphemeWidth w width start pos (g # gs) =
     (if width + int (GraphemeWidth g) > w then start
      else Truncate_pos GraphemeWidth w (width + int (GraphemeWidth g)) (start + length g) pos gs)"

definition runewidth_Truncate_bytes ::
  "(string \<Rightarrow> string list) \<Rightarrow> (string \<Rightarrow> nat) \<Rightarrow> string \<Rightarrow> 64 word \<Rightarrow> string \<Rightarrow> string" where
  \<comment> \<open>Modelled from the spec: \<open>runewidth.Truncate\<close> is not under src/\<close>
  "runewidth_Truncate_bytes Graphemes GraphemeWidth s w tail =
     (if StringWidth_bytes Graphemes GraphemeWidth s \<le> sint w then s
      else let w1 = w - word_of_int (StringWidth_bytes Graphemes GraphemeWidth tail);
               pos = Truncate_pos GraphemeWidth (sint w1) 0 0 (length s) (Graphemes s)
           in take pos s @ tail)"

definition ellipsis_utf8 :: string where
  \<comment> \<open>\<open>string(tview.SemigraphicsHorizontalEllipsis)\<close>: the three bytes of U+2026\<close>
  "ellipsis_utf8 = [CHR 0xE2, CHR 0x80, CHR 0xA6]"

definition Truncate_bytes ::
  "(string \<Rightarrow> string list) \<Rightarrow> (string \<Rightarrow> nat) \<Rightarrow> string \<Rightarrow> 64 word \<Rightarrow> string" where
  "Truncate_bytes Graphemes GraphemeWidth str width =
     runewidth_Truncate_bytes Graphemes GraphemeWidth str width ellipsis_utf8"

definition Pad_bytes ::
  "(string \<Rightarrow> string list) \<Rightarrow> (string \<Rightarrow> nat) \<Rightarrow> string \<Rightarrow> 64 word \<Rightarrow> string" where
  "Pad_bytes Graphemes GraphemeWidth s width =
     (if int (length s) = sint width then s
      else if int (length s) > sint width then Truncate_bytes Graphemes GraphemeWidth s width
      else s @ replicate (nat (sint width - int (length s))) (CHR '' ''))"

definition grapheme_clusters :: "(string \<Rightarrow> string list) \<Rightarrow> (string \<Rightarrow> nat) \<Rightarrow> bool" where
  "grapheme_clusters Graphemes GraphemeWidth \<longleftrightarrow>
     (\<forall>s. concat (Graphemes s) = s)
     \<and> (\<forall>s. \<forall>g\<in>set (Graphemes s). GraphemeWidth g \<le> 2 \<and> GraphemeWidth g \<le> length g)
     \<and> sum_list (map GraphemeWidth (Graphemes ellipsis_utf8)) \<le> 2
     \<and> (\<forall>s k. sum_list (map GraphemeWidth (Graphemes (concat (take k (Graphemes s)) @ ellipsis_utf8)))
            \<le> sum_list (map GraphemeWidth (take k (Graphemes s)))
              + sum_list (map GraphemeWidth (Graphemes ellipsis_utf8)))"

definition continuation :: "char \<Rightarrow> bool" where
  \<comment> \<open>a UTF-8 continuation byte, \<open>10xxxxxx\<close>\<close>
  "continuation c \<longleftrightarrow> (0x80 :: nat) \<le> of_char c \<and> of_char c < (0xC0 :: nat)"

primrec utf8_clusters :: "string \<Rightarrow> string list" where
  "utf8_clusters [] = []"
| "utf8_clusters (c # cs) =
     (case utf8_clusters cs of
        [] \<Rightarrow> [[c]]
      | g # gs \<Rightarrow> (case g of
                    [] \<Rightarrow> [c] # g # gs
                  | b # _ \<Rightarrow> if continuation b then (c # g) # gs else [c] # g # gs))"

definition one_cell :: "string \<Rightarrow> nat" where
  "one_cell g = (if g = [] then 0 else 1)"

section \<open>Properties\<close>

subsection \<open>Key/value serialisation\<close>

lemma sort_keys_unique:
  fixes m1 m2 :: "(string \<times> 'a) list"
  assumes "distinct (map fst m1)" "distinct (map fst m2)" "set m1 = set m2"
  shows "sort (map fst m1) = sort (map fst m2)"
proof (rule sorted_distinct_set_unique)
  show "set (sort (map fst m1)) = set (sort (map fst m2))"
    using assms(3) by simp
qed (use assms in simp_all)

lemma map_of_same_content:
  assumes "distinct (map fst m1)" "distinct (map fst m2)" "set m1 = set m2"
  shows "map_of m1 = map_of m2"
  using assms by (simp add: map_of_inject_set)

lemma mapToStr_loop_cong:
  "map_of m1 = map_of m2 \<Longrightarrow> mapToStr_loop m1 n ks i bb = mapToStr_loop m2 n ks i bb"
  by (induction ks arbitrary: i bb) (simp_all add: index_str_def Let_def)

lemma selector_items_mset:
  assumes "distinct (map fst m1)" "distinct (map fst m2)" "set m1 = set m2"
  shows "mset (selector_items m1) = mset (selector_items m2)"
proof -
  have d1: "distinct m1" and d2: "distinct m2"
    using assms(1,2) by (simp_all add: distinct_map)
  have "mset m1 = mset m2"
    using d1 d2 assms(3) by (simp add: set_eq_iff_mset_eq_distinct)
  then show ?thesis
    unfolding selector_items_def by (metis mset_map)
qed

text \<open>
  C1, as the code has it. \<open>mapToStr\<close> sorts the keys before it writes, so two maps with
  the same pairs give the same bytes whatever order \<open>range\<close> visits them in.
  \<open>toSelector\<close> writes the pairs in the order \<open>range\<close> visits them and does not sort:
  for two visiting orders of the same map it joins the same \<open>k=v\<close> items, possibly in
  another order, and its output is the same when the map has at most one entry. Both
  give the empty string for the empty map.
\<close>

theorem serialize_deterministic:
  assumes "distinct (map fst m1)" "distinct (map fst m2)" "set m1 = set m2"
  shows "mapToStr m1 = mapToStr m2
       \<and> toSelector m1 = strings_Join (selector_items m1) '',''
       \<and> mset (selector_items m1) = mset (selector_items m2)
       \<and> (length m1 \<le> 1 \<longrightarrow> toSelector m1 = toSelector m2)
       \<and> mapToStr [] = [] \<and> toSelector [] = []"
proof -
  have len: "length m1 = length m2"
    using assms by (metis distinct_card length_map set_map)
  have "mapToStr m1 = mapToStr m2"
    unfolding mapToStr_def Let_def
    using sort_keys_unique [OF assms] mapToStr_loop_cong [OF map_of_same_content [OF assms]] len
    by simp
  moreover have "length m1 \<le> 1 \<longrightarrow> toSelector m1 = toSelector m2"
  proof
    assume le: "length m1 \<le> 1"
    have "m1 = m2"
    proof (cases m1)
      case Nil
      then show ?thesis using assms(3) by simp
    next
      case (Cons p ps)
      then have ps: "ps = []" using le by simp
      obtain q where q: "m2 = [q]"
        using len Cons ps by (cases m2) auto
      show ?thesis using assms(3) Cons ps q by simp
    qed
    then show "toSelector m1 = toSelector m2" by simp
  qed
  ultimately show ?thesis
    using selector_items_mset [OF assms]
    by (simp add: toSelector_def mapToStr_def strings_Join_def selector_items_def)
qed

theorem serialize_deterministic_witness:
  "distinct (map fst [(''b'', ''2''), (''a'', ''1'')])
   \<and> set [(''b'', ''2''), (''a'', ''1'')] = set [(''a'', ''1''), (''b'', ''2'')]
   \<and> mapToStr [(''b'', ''2''), (''a'', ''1'')] = ''a=1,b=2''
   \<and> mapToStr [(''b'', ''2''), (''a'', ''1'')] = mapToStr [(''a'', ''1''), (''b'', ''2'')]"
proof -
  have d1: "distinct (map fst [(''b'', ''2''), (''a'', ''1'')])" by simp
  have d2: "distinct (map fst [(''a'', ''1''), (''b'', ''2'')])" by simp
  have s: "set [(''b'', ''2''), (''a'', ''1'')] = set [(''a'', ''1''), (''b'', ''2'')]" by auto
  have v: "mapToStr [(''b'', ''2''), (''a'', ''1'')] = ''a=1,b=2''"
    by (simp add: mapToStr_def index_str_def)
  show ?thesis
    using serialize_deterministic [OF d1 d2 s] d1 s v by simp
qed

text \<open>
  C1 as stated fails for \<open>toSelector\<close>: the map \<open>{a: 1, b: 2}\<close> visited in its two
  orders gives two different strings.
\<close>

theorem toSelector_order_counterexample:
  "distinct (map fst [(''a'', ''1''), (''b'', ''2'')])
   \<and> distinct (map fst [(''b'', ''2''), (''a'', ''1'')])
   \<and> set [(''a'', ''1''), (''b'', ''2'')] = set [(''b'', ''2''), (''a'', ''1'')]
   \<and> toSelector [(''a'', ''1''), (''b'', ''2'')] = ''a=1,b=2''
   \<and> toSelector [(''b'', ''2''), (''a'', ''1'')] = ''b=2,a=1''
   \<and> toSelector [(''a'', ''1''), (''b'', ''2'')] \<noteq> toSelector [(''b'', ''2''), (''a'', ''1'')]"
  by (auto simp add: toSelector_def selector_items_def strings_Join_def)

text \<open>
  C8 at the map \<open>{a: "x", b: 1}\<close>: the last key in sorted order holds a value that is
  not a string. The separator was written after \<open>a=x\<close> because \<open>a\<close> is not the last
  key, and nothing follows it: the result ends in a space.
\<close>

theorem mapToIfc_trailing_space:
  "mapToIfc (AMap [(''a'', AString ''x''), (''b'', ANotString)]) = ''a=x ''"
  by (simp add: mapToIfc_def)

subsection \<open>Ages\<close>

text \<open>
  C7. Each failure class has its own sentinel: \<open>ToAge\<close> of the zero timestamp returns the
  unknown sentinel; \<open>toAgeHuman\<close> of the empty string returns the unknown sentinel; and
  \<open>toAgeHuman\<close> of a non-empty string that \<open>time.Parse\<close> rejects returns the
  not-applicable sentinel, which is not the unknown one as the two constants differ.
\<close>

theorem age_sentinels:
  "(IsZero t \<longrightarrow> ToAge UnknownValue HumanDuration now t = UnknownValue)
   \<and> toAgeHuman UnknownValue NAValue parse HumanDuration now [] = UnknownValue
   \<and> (s \<noteq> [] \<and> parse s = None \<longrightarrow>
        toAgeHuman UnknownValue NAValue parse HumanDuration now s = NAValue
        \<and> (NAValue \<noteq> UnknownValue \<longrightarrow>
             toAgeHuman UnknownValue NAValue parse HumanDuration now s \<noteq> UnknownValue))"
  by (simp add: ToAge_def toAgeHuman_def)

theorem age_sentinels_witness:
  "IsZero \<lparr>sec = 0, nsec = 0\<rparr>
   \<and> ToAge ''<unknown>'' (\<lambda>d. ''1h'') \<lparr>sec = 63900000000, nsec = 0\<rparr> \<lparr>sec = 0, nsec = 0\<rparr> = ''<unknown>''
   \<and> ''not-a-date'' \<noteq> [] \<and> (\<lambda>s. None :: go_time option) ''not-a-date'' = None
   \<and> ''n/a'' \<noteq> ''<unknown>''
   \<and> toAgeHuman ''<unknown>'' ''n/a'' (\<lambda>s. None) (\<lambda>d. ''1h'') \<lparr>sec = 63900000000, nsec = 0\<rparr> ''not-a-date''
       = ''n/a''
   \<and> toAgeHuman ''<unknown>'' ''n/a'' (\<lambda>s. None) (\<lambda>d. ''1h'') \<lparr>sec = 63900000000, nsec = 0\<rparr> ''not-a-date''
       \<noteq> ''<unknown>''"
  using age_sentinels [of "\<lparr>sec = 0, nsec = 0\<rparr>" "''<unknown>''" "\<lambda>d. ''1h''"
      "\<lparr>sec = 63900000000, nsec = 0\<rparr>" "''n/a''" "\<lambda>s. None" "''not-a-date''"]
  by (simp add: IsZero_def)

subsection \<open>Ratios without a limit\<close>

text \<open>
  C6. When the limit is zero or negative, both ratio annotators return the single-value
  form of the used value and no percentage: \<open>memPct\<close> returns what \<open>humanizeBytes\<close>
  returns for the used value, \<open>decimalPct\<close> what \<open>decimal\<close> returns; in particular
  \<open>decimalPct(50, 0)\<close> is \<open>decimal(50)\<close>.
\<close>

theorem ratio_without_limit:
  "sint l \<le> 0 \<Longrightarrow>
     memPct Log ZeroValue v l = humanizeBytes Log ZeroValue v
     \<and> decimalPct v l = decimal v
     \<and> decimalPct 50 0 = decimal 50"
  by (simp add: memPct_def decimalPct_def)

theorem ratio_without_limit_witness:
  "sint (0 :: 64 word) \<le> 0
   \<and> memPct ln ''0'' 50 0 = humanizeBytes ln ''0'' 50
   \<and> decimalPct 50 0 = decimal 50
   \<and> decimal 50 = ''.05''"
proof -
  have h: "sint (0 :: 64 word) \<le> 0" by simp
  have v: "decimal 50 = ''.05''" by code_simp
  show ?thesis
    using ratio_without_limit [OF h, of ln "''0''" 50] h v by simp
qed

subsection \<open>Thousandths\<close>

text \<open>
  C3 at the inputs 990 and 996. For 996 the quotient 0.996 is below 1, so the two-decimal
  branch is taken; \<open>%.2f\<close> rounds it to \<open>1.00\<close>, which does not start with \<open>0.\<close>, and the
  result is the dot followed by the whole of it: a string that denotes no number, after
  \<open>.99\<close> for the smaller input 990.
\<close>

theorem decimal_rounds_up_to_one:
  "decimal 990 = ''.99'' \<and> decimal 996 = ''.1.00'' \<and> decimal 1000 = ''1''"
  by code_simp

subsection \<open>Fitting a string to a column\<close>

lemma StringWidth_append: "StringWidth rw (s @ t) = StringWidth rw s + StringWidth rw t"
  by (simp add: StringWidth_def)

lemma StringWidth_Cons: "StringWidth rw (r # rs) = int (rw r) + StringWidth rw rs"
  by (simp add: StringWidth_def)

lemma loop_width: "a \<le> w \<Longrightarrow> a + StringWidth rw (Truncate_loop rw w a s) \<le> w"
proof (induction s arbitrary: a)
  case Nil
  then show ?case by (simp add: StringWidth_def)
next
  case (Cons r rs)
  show ?case
  proof (cases "a + int (rw r) > w")
    case True
    then show ?thesis using Cons.prems by (simp add: StringWidth_def)
  next
    case False
    then have "a + int (rw r) \<le> w" by simp
    from Cons.IH [OF this] show ?thesis using False by (simp add: StringWidth_Cons)
  qed
qed

lemma loop_stops:
  "a \<le> w \<Longrightarrow> w < a + StringWidth rw s \<Longrightarrow>
     \<exists>c\<in>set s. w < a + StringWidth rw (Truncate_loop rw w a s) + int (rw c)"
proof (induction s arbitrary: a)
  case Nil
  then show ?case by (simp add: StringWidth_def)
next
  case (Cons r rs)
  show ?case
  proof (cases "a + int (rw r) > w")
    case True
    then have "w < a + StringWidth rw (Truncate_loop rw w a (r # rs)) + int (rw r)"
      by (simp add: StringWidth_def)
    then show ?thesis by auto
  next
    case False
    have "a + int (rw r) \<le> w" using False by simp
    moreover have "w < (a + int (rw r)) + StringWidth rw rs"
      using Cons.prems by (simp add: StringWidth_Cons)
    ultimately obtain c
      where "c \<in> set rs"
        and "w < a + int (rw r) + StringWidth rw (Truncate_loop rw w (a + int (rw r)) rs) + int (rw c)"
      using Cons.IH by blast
    then have "c \<in> set (r # rs)"
      and "w < a + StringWidth rw (Truncate_loop rw w a (r # rs)) + int (rw c)"
      using False by (simp_all add: StringWidth_Cons)
    then show ?thesis by blast
  qed
qed

lemma Truncate_cuts:
  "\<not> StringWidth rw s \<le> sint w \<Longrightarrow>
     Truncate rw s w =
       Truncate_loop rw (sint (w - word_of_nat (rw SemigraphicsHorizontalEllipsis))) 0 s
         @ [SemigraphicsHorizontalEllipsis]"
  by (simp add: Truncate_def runewidth_Truncate_def StringWidth_def)

lemma sint_sub_no_wrap:
  fixes w :: "64 word"
  assumes "- (2 ^ 63) + int n \<le> sint w" "n \<le> 2"
  shows "sint (w - word_of_nat n) = sint w - int n"
proof -
  have up: "sint w < 2 ^ 63" using sint_lt [of w] by simp
  have n: "n = 0 \<or> n = 1 \<or> n = 2" using assms(2) by linarith
  have sn: "sint (word_of_nat n :: 64 word) = int n"
    using n by auto
  have "sint (w - word_of_nat n) = signed_take_bit 63 (sint w - int n)"
    by (simp add: sint_word_ariths sn)
  also have "\<dots> = sint w - int n"
    using assms up by (intro signed_take_bit_int_eq_self) simp_all
  finally show ?thesis .
qed

lemma ascii_len:
  "\<forall>r\<in>set s. r < 0x80 \<and> rw r = 1 \<Longrightarrow> len s = int (length s) \<and> StringWidth rw s = int (length s)"
  by (induction s) (simp_all add: len_def StringWidth_def utf8_len_def)

lemmas Pad_eval = Pad_def Truncate_def runewidth_Truncate_def len_def StringWidth_def utf8_len_def
  narrow_def SemigraphicsHorizontalEllipsis_def


text \<open>
  C2, as the code has it. \<open>Pad\<close> compares the byte length of the string with the width:
  it returns the string unchanged when \<open>len(s)\<close> is the width, \<open>Truncate(s, width)\<close> when
  it is greater, and the string followed by \<open>width - len(s)\<close> spaces when it is less. For
  a string of one-byte characters that are one cell wide (printable ASCII), an ellipsis
  and a space of one cell, and a width of at least 1, the result is exactly \<open>width\<close>
  cells wide.
\<close>

theorem Pad_exact_width:
  assumes ascii: "\<forall>r\<in>set s. r < 0x80 \<and> RuneWidth r = 1"
    and ell: "RuneWidth SemigraphicsHorizontalEllipsis = 1"
    and sp: "RuneWidth 0x20 = 1"
    and w: "1 \<le> sint w"
  shows "StringWidth RuneWidth (Pad RuneWidth s w) = sint w
       \<and> (len s = sint w \<longrightarrow> Pad RuneWidth s w = s)
       \<and> (len s > sint w \<longrightarrow> Pad RuneWidth s w = Truncate RuneWidth s w)
       \<and> (len s < sint w \<longrightarrow> Pad RuneWidth s w = s @ replicate (nat (sint w - len s)) 0x20)"
proof -
  let ?W = "sint w"
  have ls: "len s = int (length s)" and ws: "StringWidth RuneWidth s = int (length s)"
    using ascii_len [OF ascii] by simp_all
  have w1: "sint (w - word_of_nat (RuneWidth SemigraphicsHorizontalEllipsis)) = ?W - 1"
    using sint_sub_no_wrap [of 1 w] w by (simp add: ell)
  have width: "StringWidth RuneWidth (Pad RuneWidth s w) = ?W"
  proof -
    consider (eq) "len s = ?W" | (short) "len s < ?W" | (long) "len s > ?W" by linarith
    then show ?thesis
    proof cases
      case eq
      then show ?thesis using ls ws by (simp add: Pad_def)
    next
      case short
      have "StringWidth RuneWidth (replicate n 0x20) = int n" for n
        by (induction n) (simp_all add: StringWidth_def sp)
      then show ?thesis
        using short ls ws by (simp add: Pad_def StringWidth_append)
    next
      case long
      define p where "p = Truncate_loop RuneWidth (?W - 1) 0 s"
      have cut: "\<not> StringWidth RuneWidth s \<le> ?W" using long ls ws by simp
      have t: "Pad RuneWidth s w = p @ [SemigraphicsHorizontalEllipsis]"
        using long cut by (simp add: Pad_def Truncate_cuts w1 p_def)
      have "0 \<le> ?W - 1" using w by simp
      from loop_width [OF this, of RuneWidth s] have up: "StringWidth RuneWidth p \<le> ?W - 1"
        by (simp add: p_def)
      have "?W - 1 < 0 + StringWidth RuneWidth s" using cut by simp
      from loop_stops [OF \<open>0 \<le> ?W - 1\<close> this] obtain c
        where "c \<in> set s" and "?W - 1 < StringWidth RuneWidth p + int (RuneWidth c)"
        unfolding p_def by auto
      then have "?W - 1 \<le> StringWidth RuneWidth p" using ascii by auto
      then have "StringWidth RuneWidth p = ?W - 1" using up by linarith
      then show ?thesis
        unfolding t by (simp add: StringWidth_append StringWidth_def ell)
    qed
  qed
  show ?thesis using width by (simp add: Pad_def)
qed

theorem Pad_exact_width_witness:
  "set [0x61, 0x62, 0x63] \<subseteq> {r. r < (0x80 :: nat) \<and> narrow r = 1}
   \<and> narrow SemigraphicsHorizontalEllipsis = 1 \<and> narrow 0x20 = 1 \<and> 1 \<le> sint (5 :: 64 word)
   \<and> Pad narrow [0x61, 0x62, 0x63] 5 = [0x61, 0x62, 0x63, 0x20, 0x20]
   \<and> StringWidth narrow (Pad narrow [0x61, 0x62, 0x63] 5) = sint (5 :: 64 word)"
proof -
  have a: "\<forall>r\<in>set [0x61, 0x62, 0x63]. r < (0x80 :: nat) \<and> narrow r = 1"
    by (simp add: narrow_def)
  have e: "narrow SemigraphicsHorizontalEllipsis = 1" and s: "narrow 0x20 = 1"
    by (simp_all add: narrow_def)
  have w: "1 \<le> sint (5 :: 64 word)" by simp
  have v: "Pad narrow [0x61, 0x62, 0x63] 5 = [0x61, 0x62, 0x63, 0x20, 0x20]"
    by (simp add: Pad_eval numeral_eq_Suc)
  show ?thesis
    using Pad_exact_width [OF a e s w] a e s w v by (simp add: subset_iff)
qed

text \<open>
  C2 as stated fails where bytes and cells differ, and for the width 0: the letter
  U+00E9 (e with an acute accent) has two bytes and one cell, so \<open>Pad\<close> at width 2 returns it unchanged, one
  cell wide; and \<open>Pad("a", 0)\<close> is the ellipsis alone, one cell wide.
\<close>

theorem Pad_byte_length_counterexample:
  "len [0xE9] = sint (2 :: 64 word)
   \<and> Pad narrow [0xE9] 2 = [0xE9]
   \<and> StringWidth narrow (Pad narrow [0xE9] 2) = 1
   \<and> StringWidth narrow (Pad narrow [0xE9] 2) \<noteq> sint (2 :: 64 word)
   \<and> Pad narrow [0x61] 0 = [0x2026]
   \<and> StringWidth narrow (Pad narrow [0x61] 0) \<noteq> sint (0 :: 64 word)"
  by (simp add: Pad_eval)

subsection \<open>Fitting any string to a column\<close>

lemmas Pad_bytes_eval = Pad_bytes_def Truncate_bytes_def runewidth_Truncate_bytes_def
  StringWidth_bytes_def ellipsis_utf8_def one_cell_def continuation_def

lemma Truncate_pos_cut:
  "\<exists>k. Truncate_pos gw w a st (st + length (concat gs)) gs = st + length (concat (take k gs))
     \<and> (a \<le> w \<longrightarrow> a + int (sum_list (map gw (take k gs))) \<le> w)
     \<and> (w < a \<longrightarrow> k = 0)
     \<and> (a \<le> w \<longrightarrow> w < a + int (sum_list (map gw gs)) \<longrightarrow>
          (\<exists>g\<in>set gs. w < a + int (sum_list (map gw (take k gs))) + int (gw g)))"
proof (induction gs arbitrary: a st)
  case Nil
  show ?case by (rule exI [of _ 0]) simp
next
  case (Cons g gs)
  show ?case
  proof (cases "a + int (gw g) > w")
    case True
    show ?thesis by (rule exI [of _ 0]) (use True in simp)
  next
    case False
    then have le: "a + int (gw g) \<le> w" by simp
    from Cons.IH [of "a + int (gw g)" "st + length g"] obtain k
      where pos: "Truncate_pos gw w (a + int (gw g)) (st + length g) (st + length g + length (concat gs)) gs
          = st + length g + length (concat (take k gs))"
        and fit: "a + int (gw g) + int (sum_list (map gw (take k gs))) \<le> w"
        and stop: "w < a + int (gw g) + int (sum_list (map gw gs)) \<longrightarrow>
          (\<exists>g'\<in>set gs. w < a + int (gw g) + int (sum_list (map gw (take k gs))) + int (gw g'))"
      using le by blast
    have p: "Truncate_pos gw w a st (st + length (concat (g # gs))) (g # gs)
        = st + length (concat (take (Suc k) (g # gs)))"
      using False pos by (simp add: add.assoc)
    have f: "a + int (sum_list (map gw (take (Suc k) (g # gs)))) \<le> w"
      using fit by simp
    have n: "\<not> w < a" using le by linarith
    have s: "w < a + int (sum_list (map gw (g # gs))) \<longrightarrow>
        (\<exists>g'\<in>set (g # gs). w < a + int (sum_list (map gw (take (Suc k) (g # gs)))) + int (gw g'))"
    proof
      assume "w < a + int (sum_list (map gw (g # gs)))"
      then have "w < a + int (gw g) + int (sum_list (map gw gs))" by simp
      with stop obtain g' where g': "g' \<in> set gs"
        "w < a + int (gw g) + int (sum_list (map gw (take k gs))) + int (gw g')" by blast
      have "w < a + int (sum_list (map gw (take (Suc k) (g # gs)))) + int (gw g')"
        using g'(2) by simp
      with g'(1) show "\<exists>g'\<in>set (g # gs). w < a + int (sum_list (map gw (take (Suc k) (g # gs)))) + int (gw g')"
        by auto
    qed
    show ?thesis
      by (rule exI [of _ "Suc k"]) (use p f n s in blast)
  qed
qed

lemma take_concat_prefix: "take (length (concat (take k gs))) (concat gs) = concat (take k gs)"
proof -
  have "concat gs = concat (take k gs) @ concat (drop k gs)"
    by (metis append_take_drop_id concat_append)
  then show ?thesis by (metis append_eq_conv_conj)
qed

lemma clusters_bytes:
  assumes "\<forall>g\<in>set gs. gw g \<le> length g"
  shows "sum_list (map gw (take k gs)) \<le> length (concat (take k gs))"
proof -
  have "sum_list (map gw (take k gs)) \<le> sum_list (map length (take k gs))"
    using assms by (intro sum_list_mono) (auto dest: in_set_takeD)
  then show ?thesis by (simp add: length_concat)
qed

lemma clusters_concat: "grapheme_clusters G gw \<Longrightarrow> concat (G s) = s"
  by (simp add: grapheme_clusters_def)

lemma clusters_cells:
  "grapheme_clusters G gw \<Longrightarrow> g \<in> set (G s) \<Longrightarrow> gw g \<le> 2 \<and> gw g \<le> length g"
  by (simp add: grapheme_clusters_def)

lemma clusters_ellipsis:
  "grapheme_clusters G gw \<Longrightarrow> StringWidth_bytes G gw ellipsis_utf8 \<le> 2"
  by (simp add: grapheme_clusters_def StringWidth_bytes_def)

lemma clusters_tail:
  "grapheme_clusters G gw \<Longrightarrow>
     StringWidth_bytes G gw (concat (take k (G s)) @ ellipsis_utf8)
       \<le> int (sum_list (map gw (take k (G s)))) + StringWidth_bytes G gw ellipsis_utf8"
proof -
  assume "grapheme_clusters G gw"
  then have "sum_list (map gw (G (concat (take k (G s)) @ ellipsis_utf8)))
      \<le> sum_list (map gw (take k (G s))) + sum_list (map gw (G ellipsis_utf8))"
    unfolding grapheme_clusters_def by blast
  then show ?thesis unfolding StringWidth_bytes_def by linarith
qed

lemma StringWidth_bytes_nonneg: "0 \<le> StringWidth_bytes G gw s"
  by (simp add: StringWidth_bytes_def)

lemma room_no_wrap:
  fixes w :: "64 word"
  assumes gc: "grapheme_clusters G gw"
    and nw: "- (2 ^ 63) + StringWidth_bytes G gw ellipsis_utf8 \<le> sint w"
  shows "sint (w - word_of_int (StringWidth_bytes G gw ellipsis_utf8))
     = sint w - StringWidth_bytes G gw ellipsis_utf8"
proof -
  define n where "n = sum_list (map gw (G ellipsis_utf8))"
  have e: "StringWidth_bytes G gw ellipsis_utf8 = int n"
    by (simp add: StringWidth_bytes_def n_def)
  have "- (2 ^ 63) + int n \<le> sint w" using nw e by simp
  moreover have "n \<le> 2" using clusters_ellipsis [OF gc] e by linarith
  ultimately have "sint (w - word_of_nat n) = sint w - int n" by (rule sint_sub_no_wrap)
  then show ?thesis by (simp add: e)
qed

lemma Truncate_bytes_fits:
  "StringWidth_bytes G gw s \<le> sint w \<Longrightarrow> Truncate_bytes G gw s w = s"
  by (simp add: Truncate_bytes_def runewidth_Truncate_bytes_def)

lemma Truncate_bytes_cut:
  assumes gc: "grapheme_clusters G gw"
    and nw: "- (2 ^ 63) + StringWidth_bytes G gw ellipsis_utf8 \<le> sint w"
    and big: "sint w < StringWidth_bytes G gw s"
  shows "\<exists>k. Truncate_bytes G gw s w = concat (take k (G s)) @ ellipsis_utf8
     \<and> (sint w < StringWidth_bytes G gw ellipsis_utf8 \<longrightarrow> k = 0)
     \<and> (StringWidth_bytes G gw ellipsis_utf8 \<le> sint w \<longrightarrow>
          int (sum_list (map gw (take k (G s)))) + StringWidth_bytes G gw ellipsis_utf8 \<le> sint w
          \<and> sint w < int (sum_list (map gw (take k (G s)))) + StringWidth_bytes G gw ellipsis_utf8 + 2)"
proof -
  define r where "r = sint w - StringWidth_bytes G gw ellipsis_utf8"
  have room: "sint (w - word_of_int (StringWidth_bytes G gw ellipsis_utf8)) = r"
    unfolding r_def by (rule room_no_wrap [OF gc nw])
  have cat: "concat (G s) = s" by (rule clusters_concat [OF gc])
  from Truncate_pos_cut [of gw r 0 0 "G s"] obtain k
    where pos: "Truncate_pos gw r 0 0 (length s) (G s) = length (concat (take k (G s)))"
      and fit: "0 \<le> r \<longrightarrow> int (sum_list (map gw (take k (G s)))) \<le> r"
      and neg: "r < 0 \<longrightarrow> k = 0"
      and stop: "0 \<le> r \<longrightarrow> r < int (sum_list (map gw (G s))) \<longrightarrow>
          (\<exists>g\<in>set (G s). r < int (sum_list (map gw (take k (G s)))) + int (gw g))"
    by (auto simp add: cat)
  have "take (Truncate_pos gw r 0 0 (length s) (G s)) s = concat (take k (G s))"
    using take_concat_prefix [of k "G s"] by (simp add: pos cat)
  then have t: "Truncate_bytes G gw s w = concat (take k (G s)) @ ellipsis_utf8"
    using big by (simp add: Truncate_bytes_def runewidth_Truncate_bytes_def room Let_def)
  have n: "sint w < StringWidth_bytes G gw ellipsis_utf8 \<longrightarrow> k = 0"
    using neg by (simp add: r_def)
  have f: "StringWidth_bytes G gw ellipsis_utf8 \<le> sint w \<longrightarrow>
          int (sum_list (map gw (take k (G s)))) + StringWidth_bytes G gw ellipsis_utf8 \<le> sint w
          \<and> sint w < int (sum_list (map gw (take k (G s)))) + StringWidth_bytes G gw ellipsis_utf8 + 2"
  proof
    assume le: "StringWidth_bytes G gw ellipsis_utf8 \<le> sint w"
    then have r0: "0 \<le> r" by (simp add: r_def)
    have "r < int (sum_list (map gw (G s)))"
      using big StringWidth_bytes_nonneg [of G gw ellipsis_utf8]
      by (simp add: r_def StringWidth_bytes_def)
    with stop r0 obtain g where g: "g \<in> set (G s)"
      "r < int (sum_list (map gw (take k (G s)))) + int (gw g)" by blast
    have "gw g \<le> 2" using clusters_cells [OF gc g(1)] by simp
    with g(2) have "r < int (sum_list (map gw (take k (G s)))) + 2" by linarith
    moreover have "int (sum_list (map gw (take k (G s)))) \<le> r" using fit r0 by simp
    ultimately show "int (sum_list (map gw (take k (G s)))) + StringWidth_bytes G gw ellipsis_utf8 \<le> sint w
          \<and> sint w < int (sum_list (map gw (take k (G s)))) + StringWidth_bytes G gw ellipsis_utf8 + 2"
      by (simp add: r_def)
  qed
  from t n f show ?thesis by blast
qed

lemma Pad_bytes_exact: "int (length s) = sint w \<Longrightarrow> Pad_bytes G gw s w = s"
  by (simp add: Pad_bytes_def)

lemma Pad_bytes_short:
  assumes "int (length s) \<le> sint w"
  shows "Pad_bytes G gw (Pad_bytes G gw s w) w = Pad_bytes G gw s w"
proof (cases "int (length s) = sint w")
  case True
  then show ?thesis by (simp add: Pad_bytes_exact)
next
  case False
  then have "Pad_bytes G gw s w = s @ replicate (nat (sint w - int (length s))) (CHR '' '')"
    using assms by (simp add: Pad_bytes_def)
  moreover have "int (length (s @ replicate (nat (sint w - int (length s))) (CHR '' ''))) = sint w"
    using assms by simp
  ultimately show ?thesis by (simp add: Pad_bytes_exact)
qed

lemma Pad_bytes_long:
  assumes gc: "grapheme_clusters G gw"
    and nw: "- (2 ^ 63) + StringWidth_bytes G gw ellipsis_utf8 \<le> sint w"
    and long: "sint w < int (length s)"
  shows "Pad_bytes G gw (Pad_bytes G gw s w) w = Pad_bytes G gw s w"
proof (cases "StringWidth_bytes G gw s \<le> sint w")
  case True
  have "Pad_bytes G gw s w = s"
    using long True by (simp add: Pad_bytes_def Truncate_bytes_fits)
  then show ?thesis by simp
next
  case False
  define e where "e = StringWidth_bytes G gw ellipsis_utf8"
  have e2: "e \<le> 2" unfolding e_def by (rule clusters_ellipsis [OF gc])
  from False have big: "sint w < StringWidth_bytes G gw s" by simp
  from Truncate_bytes_cut [OF gc nw big] obtain k
    where t: "Truncate_bytes G gw s w = concat (take k (G s)) @ ellipsis_utf8"
      and neg: "sint w < e \<longrightarrow> k = 0"
      and fit: "e \<le> sint w \<longrightarrow> int (sum_list (map gw (take k (G s)))) + e \<le> sint w
          \<and> sint w < int (sum_list (map gw (take k (G s)))) + e + 2"
    unfolding e_def by blast
  define p where "p = concat (take k (G s))"
  have P: "Pad_bytes G gw s w = p @ ellipsis_utf8"
    using long t by (simp add: Pad_bytes_def p_def)
  have cells: "sum_list (map gw (take k (G s))) \<le> length p"
    unfolding p_def
    by (rule clusters_bytes) (use clusters_cells [OF gc] in blast)
  have len: "int (length (p @ ellipsis_utf8)) = int (length p) + 3"
    by (simp add: ellipsis_utf8_def)
  have notshort: "sint w \<le> int (length (p @ ellipsis_utf8))"
  proof (cases "e \<le> sint w")
    case True
    with fit have "sint w < int (sum_list (map gw (take k (G s)))) + e + 2" by simp
    with e2 cells len show ?thesis by linarith
  next
    case False
    with e2 len show ?thesis by linarith
  qed
  have again: "Truncate_bytes G gw (p @ ellipsis_utf8) w = p @ ellipsis_utf8"
  proof (cases "e \<le> sint w")
    case True
    with fit have "int (sum_list (map gw (take k (G s)))) + e \<le> sint w" by simp
    moreover have "StringWidth_bytes G gw (p @ ellipsis_utf8)
        \<le> int (sum_list (map gw (take k (G s)))) + e"
      unfolding p_def e_def by (rule clusters_tail [OF gc])
    ultimately have "StringWidth_bytes G gw (p @ ellipsis_utf8) \<le> sint w" by linarith
    then show ?thesis by (rule Truncate_bytes_fits)
  next
    case False
    then have lt: "sint w < e" by simp
    with neg have "k = 0" by simp
    then have p0: "p = []" by (simp add: p_def)
    have big': "sint w < StringWidth_bytes G gw ellipsis_utf8" using lt by (simp add: e_def)
    from Truncate_bytes_cut [OF gc nw big'] obtain k'
      where t': "Truncate_bytes G gw ellipsis_utf8 w = concat (take k' (G ellipsis_utf8)) @ ellipsis_utf8"
        and neg': "sint w < e \<longrightarrow> k' = 0"
      unfolding e_def by blast
    from neg' lt have "k' = 0" by simp
    with t' show ?thesis by (simp add: p0)
  qed
  have "Pad_bytes G gw (p @ ellipsis_utf8) w = p @ ellipsis_utf8"
  proof (cases "int (length (p @ ellipsis_utf8)) = sint w")
    case True
    then show ?thesis by (rule Pad_bytes_exact)
  next
    case False
    with notshort have "sint w < int (length (p @ ellipsis_utf8))" by linarith
    then show ?thesis using again by (simp add: Pad_bytes_def)
  qed
  then show ?thesis by (simp add: P)
qed

lemma utf8_clusters_concat: "concat (utf8_clusters s) = s"
  by (induction s) (auto split: list.splits)

lemma utf8_clusters_nonempty: "g \<in> set (utf8_clusters s) \<Longrightarrow> g \<noteq> []"
  by (induction s arbitrary: g) (auto split: list.splits if_splits)

lemma utf8_clusters_prefix:
  "utf8_clusters (concat (take k (utf8_clusters s))) = take k (utf8_clusters s)"
proof (induction s arbitrary: k)
  case Nil
  show ?case by simp
next
  case (Cons c cs)
  show ?case
  proof (cases k)
    case 0
    then show ?thesis by simp
  next
    case (Suc j)
    show ?thesis
    proof (cases "utf8_clusters cs")
      case Nil
      then show ?thesis by (simp add: Suc)
    next
      case outer: (Cons g gs)
      have gne: "g \<noteq> []" using utf8_clusters_nonempty [of g cs] outer by simp
      then obtain b bs where g: "g = b # bs" by (cases g) auto
      show ?thesis
      proof (cases "continuation b")
        case True
        have "utf8_clusters (concat (take (Suc j) (utf8_clusters cs))) = take (Suc j) (utf8_clusters cs)"
          by (rule Cons.IH)
        then have "utf8_clusters (g @ concat (take j gs)) = g # take j gs"
          by (simp add: outer)
        then show ?thesis using True by (simp add: Suc outer g)
      next
        case False
        have ih: "utf8_clusters (concat (take j (utf8_clusters cs))) = take j (utf8_clusters cs)"
          by (rule Cons.IH)
        show ?thesis
        proof (cases j)
          case 0
          then show ?thesis using False by (simp add: Suc outer g)
        next
          case inner: (Suc i)
          from ih have "utf8_clusters (g @ concat (take i gs)) = g # take i gs"
            by (simp add: outer inner)
          then show ?thesis using False by (simp add: Suc outer g inner)
        qed
      qed
    qed
  qed
qed

lemma utf8_clusters_head: "\<exists>h hs. utf8_clusters (b # q) = (b # h) # hs"
proof (cases "utf8_clusters q")
  case Nil
  then show ?thesis by simp
next
  case outer: (Cons g gs)
  show ?thesis
  proof (cases g)
    case Nil
    then show ?thesis by (simp add: outer)
  next
    case (Cons c cs)
    then show ?thesis by (simp add: outer)
  qed
qed

lemma utf8_clusters_append:
  "\<not> continuation b \<Longrightarrow> utf8_clusters (p @ b # q) = utf8_clusters p @ utf8_clusters (b # q)"
proof (induction p)
  case Nil
  show ?case by simp
next
  case (Cons c p)
  obtain h hs where h: "utf8_clusters (b # q) = (b # h) # hs"
    using utf8_clusters_head by blast
  show ?case
  proof (cases "utf8_clusters p")
    case Nil
    then show ?thesis using Cons h by simp
  next
    case outer: (Cons g gs)
    then show ?thesis using Cons h by (simp split: list.splits)
  qed
qed

lemma utf8_clusters_grapheme: "grapheme_clusters utf8_clusters one_cell"
proof -
  have a: "\<forall>s. concat (utf8_clusters s) = s"
    by (simp add: utf8_clusters_concat)
  have b: "\<forall>s. \<forall>g\<in>set (utf8_clusters s). one_cell g \<le> 2 \<and> one_cell g \<le> length g"
    by (auto simp add: one_cell_def Suc_le_eq)
  have c: "sum_list (map one_cell (utf8_clusters ellipsis_utf8)) \<le> 2"
    by (simp add: ellipsis_utf8_def one_cell_def continuation_def)
  have d: "\<forall>s k. sum_list (map one_cell (utf8_clusters (concat (take k (utf8_clusters s)) @ ellipsis_utf8)))
      \<le> sum_list (map one_cell (take k (utf8_clusters s)))
         + sum_list (map one_cell (utf8_clusters ellipsis_utf8))"
  proof (intro allI)
    fix s k
    have "\<not> continuation (CHR 0xE2)" by (simp add: continuation_def)
    then have "utf8_clusters (concat (take k (utf8_clusters s)) @ ellipsis_utf8)
        = utf8_clusters (concat (take k (utf8_clusters s))) @ utf8_clusters ellipsis_utf8"
      unfolding ellipsis_utf8_def by (rule utf8_clusters_append)
    then show "sum_list (map one_cell (utf8_clusters (concat (take k (utf8_clusters s)) @ ellipsis_utf8)))
      \<le> sum_list (map one_cell (take k (utf8_clusters s)))
         + sum_list (map one_cell (utf8_clusters ellipsis_utf8))"
      by (simp add: utf8_clusters_prefix)
  qed
  from a b c d show ?thesis unfolding grapheme_clusters_def by blast
qed


text \<open>
  C9, as the code has it, over every Go string (a sequence of bytes). \<open>Pad\<close> is
  idempotent whenever the string is not longer than the width, whatever the library
  does: the result then has \<open>width\<close> bytes and the second call returns it. When the
  string is longer, \<open>Pad\<close> is idempotent at every width that is not so close to the
  least \<open>int\<close> that subtracting the width of the ellipsis wraps around (every width from
  0 up, and every negative width but the least one or two), for a library whose
  clusters are as \<open>grapheme_clusters\<close> states.
\<close>

theorem Pad_bytes_idempotent:
  assumes "int (length s) \<le> sint w
     \<or> (grapheme_clusters Graphemes GraphemeWidth
        \<and> - (2 ^ 63) + StringWidth_bytes Graphemes GraphemeWidth ellipsis_utf8 \<le> sint w)"
  shows "Pad_bytes Graphemes GraphemeWidth (Pad_bytes Graphemes GraphemeWidth s w) w
     = Pad_bytes Graphemes GraphemeWidth s w"
proof (cases "int (length s) \<le> sint w")
  case True
  then show ?thesis by (rule Pad_bytes_short)
next
  case False
  with assms have gc: "grapheme_clusters Graphemes GraphemeWidth"
    and nw: "- (2 ^ 63) + StringWidth_bytes Graphemes GraphemeWidth ellipsis_utf8 \<le> sint w"
    by blast+
  from False have "sint w < int (length s)" by simp
  with gc nw show ?thesis by (rule Pad_bytes_long)
qed


theorem Pad_bytes_idempotent_witness:
  "grapheme_clusters utf8_clusters one_cell
   \<and> - (2 ^ 63) + StringWidth_bytes utf8_clusters one_cell ellipsis_utf8 \<le> sint (5 :: 64 word)
   \<and> sint (5 :: 64 word) < int (length ''abcdef'')
   \<and> Pad_bytes utf8_clusters one_cell ''abcdef'' 5 = ''abcd'' @ ellipsis_utf8
   \<and> Pad_bytes utf8_clusters one_cell (Pad_bytes utf8_clusters one_cell ''abcdef'' 5) 5
       = Pad_bytes utf8_clusters one_cell ''abcdef'' 5"
proof -
  have a: "grapheme_clusters utf8_clusters one_cell" by (rule utf8_clusters_grapheme)
  have b: "- (2 ^ 63) + StringWidth_bytes utf8_clusters one_cell ellipsis_utf8 \<le> sint (5 :: 64 word)"
    by (simp add: Pad_bytes_eval)
  have c: "sint (5 :: 64 word) < int (length ''abcdef'')" by simp
  have d: "Pad_bytes utf8_clusters one_cell ''abcdef'' 5 = ''abcd'' @ ellipsis_utf8"
    by (simp add: Pad_bytes_eval)
  have e: "Pad_bytes utf8_clusters one_cell (Pad_bytes utf8_clusters one_cell ''abcdef'' 5) 5
       = Pad_bytes utf8_clusters one_cell ''abcdef'' 5"
    using Pad_bytes_idempotent [of "''abcdef''" 5 utf8_clusters one_cell] a b by blast
  from a b c d e show ?thesis by blast
qed

text \<open>
  C9 as stated fails at the least \<open>int\<close>: the room for the prefix, \<open>w - 1\<close>, wraps around
  to the greatest \<open>int\<close>, nothing is cut, and every call appends one more ellipsis.
\<close>

theorem Pad_bytes_least_width_counterexample:
  "utf8_clusters (''a'' @ ellipsis_utf8) = [''a'', ellipsis_utf8]
   \<and> Pad_bytes utf8_clusters one_cell ''a'' (- (2 ^ 63)) = ''a'' @ ellipsis_utf8
   \<and> Pad_bytes utf8_clusters one_cell
        (Pad_bytes utf8_clusters one_cell ''a'' (- (2 ^ 63))) (- (2 ^ 63))
       = ''a'' @ ellipsis_utf8 @ ellipsis_utf8
   \<and> Pad_bytes utf8_clusters one_cell
        (Pad_bytes utf8_clusters one_cell ''a'' (- (2 ^ 63))) (- (2 ^ 63))
       \<noteq> Pad_bytes utf8_clusters one_cell ''a'' (- (2 ^ 63))"
proof -
  have g: "utf8_clusters (''a'' @ ellipsis_utf8) = [''a'', ellipsis_utf8]"
    by (simp add: Pad_bytes_eval)
  have a: "Pad_bytes utf8_clusters one_cell ''a'' (- (2 ^ 63)) = ''a'' @ ellipsis_utf8"
    by (simp add: Pad_bytes_eval)
  have b: "Pad_bytes utf8_clusters one_cell (''a'' @ ellipsis_utf8) (- (2 ^ 63))
      = ''a'' @ ellipsis_utf8 @ ellipsis_utf8"
    by (simp add: Pad_bytes_eval)
  from g a b show ?thesis by (simp add: ellipsis_utf8_def)
qed

subsection \<open>Rounding to float64\<close>

lemma pow2_powr: "pow2 k = 2 powr (real_of_int k)"
proof (cases "0 \<le> k")
  case True
  then have "2 powr (real_of_int k) = 2 powr (real (nat k))" by simp
  also have "\<dots> = 2 ^ nat k" by (rule powr_realpow) simp
  finally show ?thesis using True by (simp add: pow2_def)
next
  case False
  then have "2 powr (real_of_int k) = 2 powr (- real (nat (- k)))" by simp
  also have "\<dots> = 1 / 2 powr (real (nat (- k)))" by (simp add: powr_minus_divide)
  also have "2 powr (real (nat (- k))) = 2 ^ nat (- k)" by (rule powr_realpow) simp
  finally show ?thesis using False by (simp add: pow2_def)
qed

lemma pow2_pos [simp]: "0 < pow2 k"
  by (simp add: pow2_powr)

lemma pow2_add: "pow2 (a + b) = pow2 a * pow2 b"
  by (simp add: pow2_powr powr_add)

lemma pow2_mono: "a \<le> b \<Longrightarrow> pow2 a \<le> pow2 b"
  by (simp add: pow2_powr)

lemma pow2_nat: "pow2 (int n) = 2 ^ n"
  by (simp add: pow2_def)

lemma pow2_diff: "pow2 (a - b) = pow2 a / pow2 b"
  by (simp add: pow2_powr powr_diff)

lemma ilog2_bounds:
  assumes "0 < x"
  shows "pow2 (ilog2 x) \<le> x" and "x < pow2 (ilog2 x + 1)"
proof -
  have "pow2 (ilog2 x) \<le> x \<and> x < pow2 (ilog2 x + 1)"
  proof (cases "1 \<le> x")
    case True
    define n where "n = \<lfloor>x\<rfloor>"
    have n1: "1 \<le> n" using True by (simp add: n_def le_floor_iff)
    then have n0: "0 < n" by simp
    have b1: "1 \<le> bitlen n" using n0 by (simp add: bitlen_alt_def)
    have lo: "2 ^ nat (bitlen n - 1) \<le> n" and hi: "n < 2 ^ nat (bitlen n)"
      using bitlen_bounds [OF n0] by simp_all
    have "real_of_int (2 ^ nat (bitlen n - 1)) \<le> real_of_int n"
      using lo by (simp only: of_int_le_iff)
    also have "\<dots> \<le> x" by (simp add: n_def)
    finally have 1: "pow2 (bitlen n - 1) \<le> x" using b1 by (simp add: pow2_def)
    have "n + 1 \<le> 2 ^ nat (bitlen n)" using hi by simp
    then have "real_of_int (n + 1) \<le> real_of_int (2 ^ nat (bitlen n))"
      by (simp only: of_int_le_iff)
    moreover have "x < real_of_int (n + 1)" by (simp add: n_def)
    ultimately have 2: "x < pow2 (bitlen n)" using b1 by (simp add: pow2_def)
    show ?thesis using True 1 2 by (simp add: ilog2_def n_def)
  next
    case False
    define y where "y = 1 / x"
    define m where "m = \<lceil>y\<rceil> - 1"
    have y1: "1 < y" using False assms by (simp add: y_def)
    have "1 < \<lceil>y\<rceil>" using y1 by (simp add: less_ceiling_iff)
    then have m0: "0 < m" by (simp add: m_def)
    have k1: "1 \<le> bitlen m" using m0 by (simp add: bitlen_alt_def)
    have lo: "2 ^ nat (bitlen m - 1) \<le> m" and hi: "m < 2 ^ nat (bitlen m)"
      using bitlen_bounds [OF m0] by simp_all
    have my: "real_of_int m < y" and ym: "y \<le> real_of_int m + 1"
      unfolding m_def by linarith+
    have "real_of_int m + 1 = real_of_int (m + 1)" by simp
    also have "\<dots> \<le> real_of_int (2 ^ nat (bitlen m))"
      using hi by (simp only: of_int_le_iff)
    finally have "y \<le> 2 ^ nat (bitlen m)" using ym by simp
    then have "1 / 2 ^ nat (bitlen m) \<le> 1 / y"
      using y1 by (intro divide_left_mono) simp_all
    then have 1: "pow2 (- bitlen m) \<le> x" using k1 assms by (simp add: pow2_def y_def)
    have "(2::real) ^ nat (bitlen m - 1) \<le> real_of_int m"
    proof -
      have "real_of_int (2 ^ nat (bitlen m - 1)) \<le> real_of_int m"
        using lo by (simp only: of_int_le_iff)
      then show ?thesis by simp
    qed
    then have "2 ^ nat (bitlen m - 1) < y" using my by linarith
    then have "1 / y < 1 / 2 ^ nat (bitlen m - 1)"
      using y1 by (intro divide_strict_left_mono) simp_all
    moreover have "pow2 (- bitlen m + 1) = 1 / 2 ^ nat (bitlen m - 1)"
      using k1 by (cases "bitlen m = 1") (simp_all add: pow2_def)
    ultimately have 2: "x < pow2 (- bitlen m + 1)" using assms by (simp add: y_def)
    show ?thesis using False 1 2 by (simp add: ilog2_def m_def y_def)
  qed
  then show "pow2 (ilog2 x) \<le> x" and "x < pow2 (ilog2 x + 1)" by simp_all
qed

lemma pow2_nonneg [simp]: "0 \<le> pow2 k"
  using pow2_pos [of k] by linarith

lemma pow2_abs [simp]: "\<bar>pow2 k\<bar> = pow2 k"
  by simp

lemma round_even_cases:
  "round_even x = \<lfloor>x\<rfloor> \<or> round_even x = \<lfloor>x\<rfloor> + 1"
  by (simp add: round_even_def Let_def)

lemma round_even_err: "\<bar>real_of_int (round_even x) - x\<bar> \<le> 1 / 2"
  unfolding round_even_def Let_def by (auto simp add: abs_le_iff)

lemma round_even_of_int [simp]: "round_even (of_int n) = n"
  by (simp add: round_even_def)

lemma round_even_mono:
  assumes "x \<le> y"
  shows "round_even x \<le> round_even y"
proof (cases "\<lfloor>x\<rfloor> = \<lfloor>y\<rfloor>")
  case True
  have "x - of_int \<lfloor>x\<rfloor> \<le> y - of_int \<lfloor>y\<rfloor>" using assms True by simp
  then show ?thesis
    unfolding round_even_def Let_def using True by auto
next
  case False
  have "\<lfloor>x\<rfloor> \<le> \<lfloor>y\<rfloor>" using assms by (rule floor_mono)
  then have "\<lfloor>x\<rfloor> + 1 \<le> \<lfloor>y\<rfloor>" using False by simp
  moreover have "round_even x \<le> \<lfloor>x\<rfloor> + 1" using round_even_cases [of x] by auto
  moreover have "\<lfloor>y\<rfloor> \<le> round_even y" using round_even_cases [of y] by auto
  ultimately show ?thesis by linarith
qed

lemma round_even_ge: "of_int a \<le> x \<Longrightarrow> a \<le> round_even x"
  using round_even_mono [of "of_int a" x] by simp

lemma round_even_le: "x \<le> of_int b \<Longrightarrow> round_even x \<le> b"
  using round_even_mono [of x "of_int b"] by simp

lemma f64_zero [simp]: "f64 0 = 0"
  by (simp add: f64_def)

lemma f64_pos_eq:
  "0 < x \<Longrightarrow> f64 x = of_int (round_even (x * pow2 (52 - ilog2 x))) * pow2 (ilog2 x - 52)"
  by (simp add: f64_def Let_def)

lemma f64_minus: "f64 (- x) = - f64 x"
  by (simp add: f64_def Let_def sgn_if)

lemma scaled_range:
  assumes "0 < x"
  shows "2 ^ 52 \<le> x * pow2 (52 - ilog2 x)" and "x * pow2 (52 - ilog2 x) < 2 ^ 53"
proof -
  have eq1: "pow2 (ilog2 x) * pow2 (52 - ilog2 x) = 2 ^ 52"
    unfolding pow2_add [symmetric] by (simp add: pow2_def)
  have eq2: "pow2 (ilog2 x + 1) * pow2 (52 - ilog2 x) = 2 ^ 53"
    unfolding pow2_add [symmetric] by (simp add: pow2_def)
  have "pow2 (ilog2 x) * pow2 (52 - ilog2 x) \<le> x * pow2 (52 - ilog2 x)"
    using ilog2_bounds(1) [OF assms] by (intro mult_right_mono) simp_all
  then show "2 ^ 52 \<le> x * pow2 (52 - ilog2 x)" using eq1 by simp
  have "x * pow2 (52 - ilog2 x) < pow2 (ilog2 x + 1) * pow2 (52 - ilog2 x)"
    using ilog2_bounds(2) [OF assms] by (intro mult_strict_right_mono) simp_all
  then show "x * pow2 (52 - ilog2 x) < 2 ^ 53" using eq2 by simp
qed

lemma f64_binade:
  assumes "0 < x"
  shows "pow2 (ilog2 x) \<le> f64 x" and "f64 x \<le> pow2 (ilog2 x + 1)"
proof -
  let ?m = "round_even (x * pow2 (52 - ilog2 x))"
  have "real_of_int (2 ^ 52) \<le> x * pow2 (52 - ilog2 x)"
    using scaled_range(1) [OF assms] by simp
  then have lo: "2 ^ 52 \<le> ?m" by (rule round_even_ge)
  have "x * pow2 (52 - ilog2 x) \<le> real_of_int (2 ^ 53)"
    using scaled_range(2) [OF assms] by simp
  then have hi: "?m \<le> 2 ^ 53" by (rule round_even_le)
  have eq1: "2 ^ 52 * pow2 (ilog2 x - 52) = pow2 (ilog2 x)"
  proof -
    have "pow2 52 * pow2 (ilog2 x - 52) = pow2 (ilog2 x)"
      unfolding pow2_add [symmetric] by simp
    then show ?thesis by (simp add: pow2_def)
  qed
  have eq2: "2 ^ 53 * pow2 (ilog2 x - 52) = pow2 (ilog2 x + 1)"
  proof -
    have "pow2 53 * pow2 (ilog2 x - 52) = pow2 (ilog2 x + 1)"
      unfolding pow2_add [symmetric] by (simp add: add.commute)
    then show ?thesis by (simp add: pow2_def)
  qed
  have "real_of_int (2 ^ 52) \<le> real_of_int ?m" using lo by (simp only: of_int_le_iff)
  then have "(2::real) ^ 52 \<le> real_of_int ?m" by simp
  then have l: "2 ^ 52 * pow2 (ilog2 x - 52) \<le> real_of_int ?m * pow2 (ilog2 x - 52)"
    by (intro mult_right_mono) simp_all
  have "pow2 (ilog2 x) = 2 ^ 52 * pow2 (ilog2 x - 52)" by (simp only: eq1)
  also note l
  also have "real_of_int ?m * pow2 (ilog2 x - 52) = f64 x"
    by (simp only: f64_pos_eq [OF assms])
  finally show "pow2 (ilog2 x) \<le> f64 x" .
  have "real_of_int ?m \<le> real_of_int (2 ^ 53)" using hi by (simp only: of_int_le_iff)
  then have "real_of_int ?m \<le> (2::real) ^ 53" by simp
  then have u: "real_of_int ?m * pow2 (ilog2 x - 52) \<le> 2 ^ 53 * pow2 (ilog2 x - 52)"
    by (intro mult_right_mono) simp_all
  have "f64 x = real_of_int ?m * pow2 (ilog2 x - 52)"
    by (simp only: f64_pos_eq [OF assms])
  also note u
  also have "2 ^ 53 * pow2 (ilog2 x - 52) = pow2 (ilog2 x + 1)" by (simp only: eq2)
  finally show "f64 x \<le> pow2 (ilog2 x + 1)" .
qed

lemma f64_pos: "0 < x \<Longrightarrow> 0 < f64 x"
  using f64_binade(1) [of x] pow2_pos [of "ilog2 x"] by linarith

lemma f64_nonneg: "0 \<le> x \<Longrightarrow> 0 \<le> f64 x"
  using f64_pos [of x] by (cases "x = 0") auto

lemma ilog2_mono:
  assumes "0 < x" "x \<le> y"
  shows "ilog2 x \<le> ilog2 y"
proof (rule ccontr)
  assume "\<not> ilog2 x \<le> ilog2 y"
  then have "ilog2 y + 1 \<le> ilog2 x" by simp
  then have "pow2 (ilog2 y + 1) \<le> pow2 (ilog2 x)" by (rule pow2_mono)
  moreover have "y < pow2 (ilog2 y + 1)" using assms by (intro ilog2_bounds) simp
  moreover have "pow2 (ilog2 x) \<le> x" using assms by (intro ilog2_bounds)
  ultimately show False using assms by linarith
qed

lemma f64_mono_pos:
  assumes "0 < x" "x \<le> y"
  shows "f64 x \<le> f64 y"
proof -
  have y: "0 < y" using assms by linarith
  show ?thesis
  proof (cases "ilog2 x = ilog2 y")
    case True
    have "x * pow2 (52 - ilog2 y) \<le> y * pow2 (52 - ilog2 y)"
      using assms by (intro mult_right_mono) simp_all
    then have "round_even (x * pow2 (52 - ilog2 y)) \<le> round_even (y * pow2 (52 - ilog2 y))"
      by (rule round_even_mono)
    then have "real_of_int (round_even (x * pow2 (52 - ilog2 y)))
        \<le> real_of_int (round_even (y * pow2 (52 - ilog2 y)))"
      by (simp only: of_int_le_iff)
    then have "real_of_int (round_even (x * pow2 (52 - ilog2 y))) * pow2 (ilog2 y - 52)
        \<le> real_of_int (round_even (y * pow2 (52 - ilog2 y))) * pow2 (ilog2 y - 52)"
      by (intro mult_right_mono) simp_all
    then show ?thesis
      using True by (simp add: f64_pos_eq [OF assms(1)] f64_pos_eq [OF y])
  next
    case False
    then have "ilog2 x + 1 \<le> ilog2 y" using ilog2_mono [OF assms] by simp
    then have "pow2 (ilog2 x + 1) \<le> pow2 (ilog2 y)" by (rule pow2_mono)
    then show ?thesis
      using f64_binade(2) [OF assms(1)] f64_binade(1) [OF y] by linarith
  qed
qed

lemma f64_mono:
  assumes "0 \<le> x" "x \<le> y"
  shows "f64 x \<le> f64 y"
proof (cases "x = 0")
  case True
  then show ?thesis using assms f64_nonneg [of y] by simp
next
  case False
  then show ?thesis using assms by (intro f64_mono_pos) simp_all
qed

lemma f64_err_pos:
  assumes "0 < x"
  shows "\<bar>f64 x - x\<bar> \<le> x / 2 ^ 53"
proof -
  let ?e = "ilog2 x"
  let ?s = "x * pow2 (52 - ?e)"
  let ?q = "pow2 (?e - 52)"
  have sq: "?s * ?q = x"
  proof -
    have "pow2 (52 - ?e) * pow2 (?e - 52) = 1"
      unfolding pow2_add [symmetric] by (simp add: pow2_def)
    then show ?thesis by (simp add: mult.assoc)
  qed
  have "\<bar>f64 x - x\<bar> = \<bar>real_of_int (round_even ?s) * ?q - ?s * ?q\<bar>"
    by (simp add: f64_pos_eq [OF assms] sq)
  also have "\<dots> = \<bar>real_of_int (round_even ?s) - ?s\<bar> * ?q"
    by (simp add: left_diff_distrib [symmetric] abs_mult)
  also have "\<dots> \<le> 1 / 2 * ?q"
    by (intro mult_right_mono round_even_err) simp
  also have "\<dots> = pow2 ?e / 2 ^ 53"
  proof -
    have "pow2 (?e - 52) = pow2 ?e / pow2 52" by (rule pow2_diff)
    then show ?thesis by (simp add: pow2_def)
  qed
  also have "\<dots> \<le> x / 2 ^ 53"
    using ilog2_bounds(1) [OF assms] by (intro divide_right_mono) simp_all
  finally show ?thesis .
qed

lemma f64_consts:
  "f64 10 = 10" "f64 (2 ^ 64) = 2 ^ 64" "f64 (1 / 2) = 1 / 2" "f64 2048 = 2048"
  "f64 5 = 5" "f64 20480 = 20480" "f64 (11 / 2) = 11 / 2" "f64 (40961 / 2) = 40961 / 2"
  "f64 100 = 100" "f64 (201 / 2) = 201 / 2" "f64 1 = 1" "f64 (13 / 2) = 13 / 2" "f64 1024 = 1024"
  by code_simp+

lemma f64_pow1024:
  "f64 (1024 ^ 0) = 1" "f64 (1024 ^ 1) = 1024" "f64 (1024 ^ 2) = 1024 ^ 2"
  "f64 (1024 ^ 3) = 1024 ^ 3" "f64 (1024 ^ 4) = 1024 ^ 4" "f64 (1024 ^ 5) = 1024 ^ 5"
  "f64 (1024 ^ 6) = 1024 ^ 6"
  by code_simp+

subsection \<open>The scale exponent\<close>

lemma ln_1024: "ln (1024::real) = 10 * ln 2"
proof -
  have "(1024::real) = 2 ^ 10" by simp
  then have "ln (1024::real) = ln (2 ^ 10)" by simp
  also have "\<dots> = real 10 * ln 2" by (rule ln_realpow)
  finally show ?thesis by simp
qed

lemma ln_2_64: "ln ((2::real) ^ 64) = 64 * ln 2"
proof -
  have "ln ((2::real) ^ 64) = real 64 * ln 2" by (rule ln_realpow)
  then show ?thesis by simp
qed

lemma ln2_pos: "0 < ln (2::real)"
  by simp

lemma f64_err:
  assumes "0 \<le> x"
  shows "\<bar>f64 x - x\<bar> \<le> x / 2 ^ 53"
  using f64_err_pos [of x] assms by (cases "x = 0") simp_all

lemma logn_close:
  assumes acc: "Log_accurate Log" and lo: "2 \<le> F" and hi: "F \<le> 2 ^ 64"
  shows "\<bar>logn Log F 1024 - ln F / ln 1024\<bar> \<le> 1 / 10"
proof -
  define A where "A = ln F"
  define B where "B = ln (1024::real)"
  define a where "a = Log F"
  define b where "b = Log 1024"
  define t where "t = A / B"
  define r where "r = a / b"
  have B: "B = 10 * ln 2" by (simp add: B_def ln_1024)
  have Bpos: "0 < B" using B ln2_pos by simp
  have A_lo: "ln 2 \<le> A" unfolding A_def using lo by (subst ln_le_cancel_iff) simp_all
  have A_hi: "A \<le> 64 * ln 2"
  proof -
    have "ln F \<le> ln (2 ^ 64)" using lo hi by (subst ln_le_cancel_iff) simp_all
    then show ?thesis by (simp only: A_def ln_2_64)
  qed
  have Apos: "0 < A" using A_lo ln2_pos by linarith
  have t_lo: "1 / 10 \<le> t"
  proof -
    have "1 / 10 = ln 2 / B" using B ln2_pos by simp
    also have "\<dots> \<le> A / B" using A_lo Bpos by (intro divide_right_mono) simp_all
    finally show ?thesis by (simp add: t_def)
  qed
  have t_hi: "t \<le> 32 / 5"
  proof -
    have "A / B \<le> 64 * ln 2 / B" using A_hi Bpos by (intro divide_right_mono) simp_all
    also have "\<dots> = 32 / 5" using B ln2_pos by simp
    finally show ?thesis by (simp add: t_def)
  qed
  have ea: "\<bar>a - A\<bar> \<le> A / 1024"
    using acc lo unfolding Log_accurate_def a_def A_def by simp
  have eb: "\<bar>b - B\<bar> \<le> B / 1024"
    using acc unfolding Log_accurate_def b_def B_def by simp
  have a_lo: "A * 1023 / 1024 \<le> a" and a_hi: "a \<le> A * 1025 / 1024"
    using ea by linarith+
  have b_lo: "B * 1023 / 1024 \<le> b" and b_hi: "b \<le> B * 1025 / 1024"
    using eb by linarith+
  have bpos: "0 < b" using b_lo Bpos by linarith
  have apos: "0 < a" using a_lo Apos by linarith
  have r_hi: "r \<le> t * (1025 / 1023)"
  proof -
    have "a / b \<le> (A * 1025 / 1024) / (B * 1023 / 1024)"
      using a_hi b_lo apos Bpos by (intro frac_le) simp_all
    also have "\<dots> = t * (1025 / 1023)" using Bpos by (simp add: t_def)
    finally show ?thesis by (simp only: r_def)
  qed
  have r_lo: "t * (1023 / 1025) \<le> r"
  proof -
    have "t * (1023 / 1025) = (A * 1023 / 1024) / (B * 1025 / 1024)"
      using Bpos by (simp add: t_def)
    also have "\<dots> \<le> a / b"
      using a_lo b_hi bpos Apos by (intro frac_le) simp_all
    finally show ?thesis by (simp only: r_def)
  qed
  have rpos: "0 \<le> r" using apos bpos by (simp add: r_def)
  have "\<bar>f64 r - r\<bar> \<le> r / 2 ^ 53" by (rule f64_err [OF rpos])
  moreover have "r / 2 ^ 53 \<le> r / 1024"
    using rpos by (intro divide_left_mono) simp_all
  ultimately have er: "\<bar>f64 r - r\<bar> \<le> r / 1024" by linarith
  have "\<bar>f64 r - t\<bar> \<le> 1 / 10"
    using er r_lo r_hi t_lo t_hi by linarith
  then show ?thesis
    by (simp add: logn_def fdiv_def r_def a_def b_def t_def A_def B_def)
qed

lemma f64_of_count:
  assumes "10 \<le> s" "s < 2 ^ 64"
  shows "10 \<le> f64 (real s)" and "f64 (real s) \<le> 2 ^ 64"
proof -
  have "f64 10 \<le> f64 (real s)" using assms(1) by (intro f64_mono) simp_all
  then show "10 \<le> f64 (real s)" by (simp add: f64_consts)
  have "real s \<le> real (2 ^ 64)" using assms(2) by (simp only: of_nat_le_iff)
  then have "real s \<le> 2 ^ 64" by simp
  then have "f64 (real s) \<le> f64 (2 ^ 64)" by (intro f64_mono) simp_all
  then show "f64 (real s) \<le> 2 ^ 64" by (simp only: f64_consts)
qed

lemma log1024_bounds:
  fixes F :: real
  assumes "2 \<le> F" "F \<le> 2 ^ 64"
  shows "1 / 10 \<le> ln F / ln 1024" and "ln F / ln 1024 \<le> 32 / 5"
proof -
  have B: "ln (1024::real) = 10 * ln 2" by (rule ln_1024)
  have lo: "ln 2 \<le> ln F" using assms(1) by (subst ln_le_cancel_iff) simp_all
  have "ln F \<le> ln (2 ^ 64)" using assms by (subst ln_le_cancel_iff) simp_all
  then have hi: "ln F \<le> 64 * ln 2" by (simp only: ln_2_64)
  have "1 / 10 = ln 2 / (10 * ln (2::real))" using ln2_pos by simp
  also have "\<dots> \<le> ln F / (10 * ln 2)" using lo ln2_pos by (intro divide_right_mono) simp_all
  finally show "1 / 10 \<le> ln F / ln 1024" by (simp only: B)
  have "ln F / (10 * ln 2) \<le> 64 * ln 2 / (10 * ln 2)"
    using hi ln2_pos by (intro divide_right_mono) simp_all
  also have "\<dots> = 32 / 5" using ln2_pos by simp
  finally show "ln F / ln 1024 \<le> 32 / 5" by (simp only: B)
qed

lemma exp_nat_ln_1024: "exp (real n * ln 1024) = 1024 ^ n"
proof -
  have "exp (real n * ln 1024) = exp (ln (1024::real)) ^ n" by (rule exp_of_nat_mult)
  then show ?thesis by simp
qed

lemma scale_exponent_bounds:
  assumes acc: "Log_accurate Log" and s: "10 \<le> s" "s < 2 ^ 64"
  shows "\<exists>n. scale_exponent Log s 1024 = int n \<and> n \<le> 6
           \<and> 1024 ^ n \<le> 2 * f64 (real s) \<and> f64 (real s) < 2048 * 1024 ^ n"
proof -
  define F where "F = f64 (real s)"
  define f where "f = logn Log F 1024"
  define t where "t = ln F / ln 1024"
  define B where "B = ln (1024::real)"
  have F10: "10 \<le> F" and F64: "F \<le> 2 ^ 64"
    using f64_of_count [OF s] by (simp_all add: F_def)
  have F2: "2 \<le> F" using F10 by linarith
  have Fpos: "0 < F" using F10 by linarith
  have close: "\<bar>f - t\<bar> \<le> 1 / 10"
    unfolding f_def t_def by (rule logn_close [OF acc F2 F64])
  have t_lo: "1 / 10 \<le> t" and t_hi: "t \<le> 32 / 5"
    unfolding t_def by (rule log1024_bounds [OF F2 F64])+
  have B: "B = 10 * ln 2" by (simp add: B_def ln_1024)
  have Bpos: "0 < B" using B ln2_pos by simp
  have tB: "t * B = ln F" using Bpos by (simp add: t_def B_def)
  have f0: "0 \<le> f" and f7: "f < 7" using close t_lo t_hi by linarith+
  define e where "e = \<lfloor>f\<rfloor>"
  have e0: "0 \<le> e" using f0 by (simp add: e_def)
  have e6: "e \<le> 6"
  proof -
    have "e < 7" unfolding e_def using f7 by (simp add: floor_less_iff)
    then show ?thesis by simp
  qed
  define n where "n = nat e"
  have en: "e = int n" using e0 by (simp add: n_def)
  have n6: "n \<le> 6" using e6 en by simp
  have nf: "real n \<le> f" and fn: "f < real n + 1"
  proof -
    have "real_of_int e \<le> f" and "f < real_of_int e + 1" unfolding e_def by linarith+
    then show "real n \<le> f" and "f < real n + 1" by (simp_all add: en)
  qed
  have up: "real n * B \<le> ln F + ln 2"
  proof -
    have "real n \<le> t + 1 / 10" using nf close by linarith
    then have "real n * B \<le> (t + 1 / 10) * B" using Bpos by (intro mult_right_mono) simp_all
    also have "\<dots> = ln F + ln 2" using tB B by (simp add: distrib_right)
    finally show ?thesis .
  qed
  have down: "ln F - 11 * ln 2 < real n * B"
  proof -
    have "t - 11 / 10 < real n" using fn close by linarith
    then have "(t - 11 / 10) * B < real n * B" using Bpos by (intro mult_strict_right_mono)
    moreover have "(t - 11 / 10) * B = ln F - 11 * ln 2" using tB B by (simp add: left_diff_distrib)
    ultimately show ?thesis by simp
  qed
  have p1: "1024 ^ n \<le> 2 * F"
  proof -
    have "exp (real n * B) \<le> exp (ln F + ln 2)" using up by simp
    also have "\<dots> = F * 2" using Fpos by (simp add: exp_add)
    finally show ?thesis by (simp add: B_def exp_nat_ln_1024)
  qed
  have p2: "F < 2048 * 1024 ^ n"
  proof -
    have "exp (ln F - 11 * ln 2) < exp (real n * B)" using down by simp
    moreover have "exp (ln F - 11 * ln 2) = F / 2048"
    proof -
      have "exp (11 * ln (2::real)) = exp (ln 2) ^ 11"
        using exp_of_nat_mult [of 11 "ln (2::real)"] by simp
      then have "exp (11 * ln (2::real)) = 2048" by simp
      then show ?thesis using Fpos by (simp add: exp_diff)
    qed
    ultimately have "F / 2048 < 1024 ^ n" by (simp add: B_def exp_nat_ln_1024)
    then show ?thesis by simp
  qed
  have "scale_exponent Log s 1024 = int n"
    by (simp add: scale_exponent_def math_Floor_def F_def [symmetric] f_def [symmetric]
        e_def [symmetric] en)
  then show ?thesis using n6 p1 p2 by (auto simp add: F_def)
qed

subsection \<open>Lengths of formatted numbers\<close>

lemma itoa_nat_length_pos: "1 \<le> length (itoa_nat n)"
  by (subst itoa_nat.simps) simp

lemma itoa_nat_length_le: "0 < k \<Longrightarrow> n < 10 ^ k \<Longrightarrow> length (itoa_nat n) \<le> k"
proof (induction k arbitrary: n)
  case 0
  then show ?case by simp
next
  case (Suc k)
  show ?case
  proof (cases "n < 10")
    case True
    then show ?thesis by (subst itoa_nat.simps) simp
  next
    case False
    then have k: "0 < k" using Suc.prems(2) by (cases k) simp_all
    have "n div 10 < 10 ^ k" using Suc.prems(2) by (simp add: less_mult_imp_div_less mult.commute)
    from Suc.IH [OF k this] show ?thesis using False by (subst itoa_nat.simps) simp
  qed
qed

lemma itoa_nat_length_ge2: "10 \<le> n \<Longrightarrow> 2 \<le> length (itoa_nat n)"
  using itoa_nat_length_pos [of "n div 10"] by (subst itoa_nat.simps) simp

lemma digit_not_dot:
  fixes d :: nat
  assumes "d < 10"
  shows "char_of (48 + d) \<noteq> CHR ''.''"
proof
  assume "char_of (48 + d) = CHR ''.''"
  then have "of_char (char_of (48 + d) :: char) = (of_char CHR ''.'' :: nat)" by simp
  then have "(48 + d) mod 256 = 46" by simp
  then show False using assms by simp
qed

lemma itoa_nat_no_dot: "CHR ''.'' \<notin> set (itoa_nat n)"
proof (induction n rule: itoa_nat.induct)
  case (1 n)
  show ?case
  proof (cases "n < 10")
    case True
    then show ?thesis using digit_not_dot [of n] by (subst itoa_nat.simps) auto
  next
    case False
    have "n mod 10 < 10" by simp
    then have "char_of (48 + n mod 10) \<noteq> CHR ''.''" by (rule digit_not_dot)
    then show ?thesis using False 1 by (subst itoa_nat.simps) auto
  qed
qed

lemma TrimSuffix_no_dot:
  assumes "CHR ''.'' \<notin> set s"
  shows "TrimSuffix s ''.0'' = s"
proof -
  have "\<not> HasSuffix s ''.0''"
  proof
    assume "HasSuffix s ''.0''"
    then have "CHR ''.'' \<in> set (drop (length s - length ''.0'') s)"
      unfolding HasSuffix_def by simp
    then show False using assms by (meson in_set_dropD)
  qed
  then show ?thesis by (simp add: TrimSuffix_def)
qed

lemma TrimSuffix_length_ge: "length s - length p \<le> length (TrimSuffix s p)"
  by (simp add: TrimSuffix_def)

lemma TrimSuffix_length_le: "length (TrimSuffix s p) \<le> length s"
  by (simp add: TrimSuffix_def)

lemma format_f_0: "0 \<le> x \<Longrightarrow> format_f 0 x = itoa_nat (nat (round_even x))"
  using itoa_nat_length_pos [of "nat (round_even x)"] by (simp add: format_f_def Let_def)

lemma take_dot_drop_length: "length (take k l @ ''.'' @ drop k l) = length l + 1"
proof -
  have "length (take k l) + length (drop k l) = length (take k l @ drop k l)" by simp
  also have "\<dots> = length l" by simp
  finally show ?thesis by simp
qed

lemma format_f_1_eq:
  assumes "0 \<le> x"
  shows "format_f 1 x =
    (let ds = itoa_nat (nat (round_even (x * 10)));
         ds1 = replicate (2 - length ds) (CHR ''0'') @ ds
     in take (length ds1 - 1) ds1 @ ''.'' @ drop (length ds1 - 1) ds1)"
proof -
  have a: "\<bar>x\<bar> * 10 ^ 1 = x * 10" using assms by simp
  have b: "\<not> x < 0" using assms by simp
  have c: "(1::nat) + 1 = 2" by simp
  have d: "(1::nat) \<noteq> 0" by simp
  show ?thesis
    unfolding format_f_def a c by (simp only: b d if_False append_Nil Let_def)
qed

lemma format_f_1_length:
  assumes "0 \<le> x" "x < 10"
  shows "3 \<le> length (format_f 1 x)" and "length (format_f 1 x) \<le> 4"
proof -
  define ds where "ds = itoa_nat (nat (round_even (x * 10)))"
  define ds1 where "ds1 = replicate (2 - length ds) (CHR ''0'') @ ds"
  have "x * 10 \<le> real_of_int 100" using assms by simp
  then have "round_even (x * 10) \<le> 100" by (rule round_even_le)
  then have "nat (round_even (x * 10)) < 10 ^ 3" by simp
  then have l3: "length ds \<le> 3" unfolding ds_def by (intro itoa_nat_length_le) simp_all
  have l1: "1 \<le> length ds" unfolding ds_def by (rule itoa_nat_length_pos)
  have "format_f 1 x = take (length ds1 - 1) ds1 @ ''.'' @ drop (length ds1 - 1) ds1"
    unfolding format_f_1_eq [OF assms(1)] Let_def ds1_def ds_def ..
  then have "length (format_f 1 x) = length ds1 + 1"
    by (simp only: take_dot_drop_length)
  moreover have "length ds1 = 2 - length ds + length ds" by (simp add: ds1_def)
  ultimately show "3 \<le> length (format_f 1 x)" and "length (format_f 1 x) \<le> 4"
    using l1 l3 by simp_all
qed

subsection \<open>Byte counts\<close>

lemma math_Pow_1024: "n \<le> 6 \<Longrightarrow> math_Pow 1024 n = 1024 ^ n"
proof -
  assume "n \<le> 6"
  then consider "n = 0" | "n = 1" | "n = 2" | "n = 3" | "n = 4" | "n = 5" | "n = 6"
    by linarith
  then show ?thesis
    by cases (simp_all only: math_Pow_def f64_pow1024 f64_consts power_0 power_one_right)
qed

lemma scaled_value_bounds:
  assumes n6: "n \<le> 6" and lo: "1024 ^ n \<le> 2 * F" and hi: "F < 2048 * 1024 ^ n"
  defines "val \<equiv> fdiv (math_Floor (fadd (fmul (fdiv F (math_Pow 1024 n)) 10) (1 / 2))) 10"
  shows "0 \<le> val" and "val \<le> 2048" and "n = 0 \<Longrightarrow> 10 \<le> F \<Longrightarrow> 10 \<le> val"
proof -
  define x0 where "x0 = F / 1024 ^ n"
  define x where "x = f64 x0"
  define y1 where "y1 = f64 (x * 10)"
  define y2 where "y2 = f64 (y1 + 1 / 2)"
  define fl where "fl = \<lfloor>y2\<rfloor>"
  have val: "val = f64 (real_of_int fl / 10)"
    by (simp add: val_def fdiv_def fmul_def fadd_def math_Floor_def math_Pow_1024 [OF n6]
        x0_def x_def y1_def y2_def fl_def)
  have p: "(0::real) < 1024 ^ n" by simp
  have x0_lo: "1 / 2 \<le> x0" using lo p by (simp add: x0_def field_simps)
  have x0_hi: "x0 \<le> 2048" using hi p by (simp add: x0_def field_simps)
  have "f64 (1 / 2) \<le> x" unfolding x_def using x0_lo by (intro f64_mono) simp_all
  then have x_lo: "1 / 2 \<le> x" by (simp only: f64_consts)
  have "x \<le> f64 2048" unfolding x_def using x0_lo x0_hi by (intro f64_mono) simp_all
  then have x_hi: "x \<le> 2048" by (simp only: f64_consts)
  have "f64 5 \<le> y1" unfolding y1_def using x_lo by (intro f64_mono) simp_all
  then have y1_lo: "5 \<le> y1" by (simp only: f64_consts)
  have "y1 \<le> f64 20480" unfolding y1_def using x_lo x_hi by (intro f64_mono) simp_all
  then have y1_hi: "y1 \<le> 20480" by (simp only: f64_consts)
  have "f64 (11 / 2) \<le> y2" unfolding y2_def using y1_lo by (intro f64_mono) simp_all
  then have y2_lo: "11 / 2 \<le> y2" by (simp only: f64_consts)
  have "y2 \<le> f64 (40961 / 2)" unfolding y2_def using y1_lo y1_hi by (intro f64_mono) simp_all
  then have y2_hi: "y2 \<le> 40961 / 2" by (simp only: f64_consts)
  have fl_lo: "5 \<le> fl" unfolding fl_def using y2_lo by (simp add: le_floor_iff)
  have fl_hi: "fl \<le> 20480"
  proof -
    have "fl < 20481" unfolding fl_def using y2_hi by (simp add: floor_less_iff)
    then show ?thesis by simp
  qed
  have q_lo: "1 / 2 \<le> real_of_int fl / 10" using fl_lo by simp
  have q_hi: "real_of_int fl / 10 \<le> 2048" using fl_hi by simp
  have "f64 (1 / 2) \<le> val" unfolding val using q_lo by (intro f64_mono) simp_all
  then have "1 / 2 \<le> val" by (simp only: f64_consts)
  then show "0 \<le> val" by linarith
  have "val \<le> f64 2048" unfolding val using q_lo q_hi by (intro f64_mono) simp_all
  then show "val \<le> 2048" by (simp only: f64_consts)
  show "10 \<le> val" if "n = 0" "10 \<le> F"
  proof -
    have x0: "10 \<le> x0" using that by (simp add: x0_def)
    have "f64 10 \<le> x" unfolding x_def using x0 by (intro f64_mono) simp_all
    then have x10: "10 \<le> x" by (simp only: f64_consts)
    have "f64 100 \<le> y1" unfolding y1_def using x10 by (intro f64_mono) simp_all
    then have y100: "100 \<le> y1" by (simp only: f64_consts)
    have "f64 (201 / 2) \<le> y2" unfolding y2_def using y100 by (intro f64_mono) simp_all
    then have "201 / 2 \<le> y2" by (simp only: f64_consts)
    then have "100 \<le> fl" unfolding fl_def by (simp add: le_floor_iff)
    then have "10 \<le> real_of_int fl / 10" by simp
    then have "f64 10 \<le> val" unfolding val by (intro f64_mono) simp_all
    then show ?thesis by (simp only: f64_consts)
  qed
qed

lemma suffix_index: "n \<le> 6 \<Longrightarrow> n = 0 \<or> n = 1 \<or> n = 2 \<or> n = 3 \<or> n = 4 \<or> n = 5 \<or> n = (6::nat)"
  by linarith

lemma suffix_length_le: "n \<le> 6 \<Longrightarrow> length (suffixes ! n) \<le> 1"
  using suffix_index [of n] by (auto simp add: suffixes_def)

lemma suffix_length_eq: "1 \<le> n \<Longrightarrow> n \<le> 6 \<Longrightarrow> length (suffixes ! n) = 1"
  using suffix_index [of n] by (auto simp add: suffixes_def)

lemma humanateBytes_length:
  assumes acc: "Log_accurate Log" and s: "1 \<le> s" "s < 2 ^ 64"
  shows "\<exists>str. humanateBytes Log s 1024 suffixes = Inr str \<and> 2 \<le> length str \<and> length str \<le> 5"
proof (cases "s < 10")
  case True
  then have "length (itoa_nat s) = 1" by (subst itoa_nat.simps) simp
  then show ?thesis using True by (simp add: humanateBytes_def)
next
  case False
  then have s10: "10 \<le> s" by simp
  from scale_exponent_bounds [OF acc s10 s(2)] obtain n
    where e: "scale_exponent Log s 1024 = int n" and n6: "n \<le> 6"
      and lo: "1024 ^ n \<le> 2 * f64 (real s)" and hi: "f64 (real s) < 2048 * 1024 ^ n"
    by blast
  define val where
    "val = fdiv (math_Floor (fadd (fmul (fdiv (f64 (real s)) (math_Pow 1024 n)) 10) (1 / 2))) 10"
  define valStr where "valStr = format_f (if val < 10 then 1 else 0) val"
  have F10: "10 \<le> f64 (real s)" using f64_of_count(1) [OF s10 s(2)] .
  have v0: "0 \<le> val" and v2048: "val \<le> 2048"
    unfolding val_def by (rule scaled_value_bounds [OF n6 lo hi])+
  have vn0: "10 \<le> val" if "n = 0"
    unfolding val_def by (rule scaled_value_bounds(3) [OF n6 lo hi that F10])
  have res: "humanateBytes Log s 1024 suffixes = Inr (TrimSuffix valStr ''.0'' @ suffixes ! n)"
    using False n6 by (simp add: humanateBytes_def e Let_def valStr_def val_def suffixes_def)
  have "2 \<le> length (TrimSuffix valStr ''.0'' @ suffixes ! n)
      \<and> length (TrimSuffix valStr ''.0'' @ suffixes ! n) \<le> 5"
  proof (cases "val < 10")
    case True
    then have n1: "1 \<le> n" using vn0 by (cases "n = 0") simp_all
    have vs: "valStr = format_f 1 val" using True by (simp add: valStr_def)
    have "3 \<le> length valStr" and l4: "length valStr \<le> 4"
      unfolding vs by (rule format_f_1_length [OF v0 True])+
    then have "1 \<le> length (TrimSuffix valStr ''.0'')"
      using TrimSuffix_length_ge [of valStr "''.0''"] by simp
    moreover have "length (TrimSuffix valStr ''.0'') \<le> 4"
      using TrimSuffix_length_le [of valStr "''.0''"] l4 by simp
    ultimately show ?thesis using suffix_length_eq [OF n1 n6] by simp
  next
    case False
    then have vs: "valStr = itoa_nat (nat (round_even val))"
      using v0 by (simp add: valStr_def format_f_0)
    have "real_of_int 10 \<le> val" using False by simp
    then have r10: "10 \<le> round_even val" by (rule round_even_ge)
    have "val \<le> real_of_int 2048" using v2048 by simp
    then have "round_even val \<le> 2048" by (rule round_even_le)
    then have "nat (round_even val) < 10 ^ 4" by simp
    then have l4: "length valStr \<le> 4" unfolding vs by (intro itoa_nat_length_le) simp_all
    have l2: "2 \<le> length valStr" unfolding vs using r10 by (intro itoa_nat_length_ge2) simp
    have "TrimSuffix valStr ''.0'' = valStr"
      unfolding vs by (rule TrimSuffix_no_dot) (rule itoa_nat_no_dot)
    then show ?thesis using l2 l4 suffix_length_le [OF n6] by simp
  qed
  then show ?thesis using res by simp
qed

lemma rounded_ln_accurate: "Log_accurate rounded_ln"
  unfolding Log_accurate_def rounded_ln_def
proof (intro allI impI)
  fix x :: real
  assume "1 \<le> x"
  then have l: "0 \<le> ln x" by simp
  have "\<bar>f64 (ln x) - ln x\<bar> \<le> ln x / 2 ^ 53" by (rule f64_err [OF l])
  moreover have "ln x / 2 ^ 53 \<le> ln x / 1024" using l by (intro divide_left_mono) simp_all
  ultimately show "\<bar>f64 (ln x) - ln x\<bar> \<le> ln x / 1024" by linarith
qed

lemma unat_range:
  fixes v :: "64 word"
  assumes "v \<noteq> 0"
  shows "1 \<le> unat v" and "unat v < 2 ^ 64"
proof -
  have "unat v \<noteq> 0" using assms by (simp add: unat_eq_0)
  then show "1 \<le> unat v" by simp
  show "unat v < 2 ^ 64" using unsigned_less [of v, where 'a = nat] by simp
qed

text \<open>
  C10. For every \<open>int64\<close> given to \<open>humanizeBytes\<close>, negative ones included (they are
  read as unsigned values of \<open>2\<^sup>6\<^sup>3\<close> and more), the scale exponent computed in
  \<open>humanateBytes\<close> is an index of the seven-entry suffix table, and the panic of an index
  out of range never happens. \<open>math.Log\<close> is assumed accurate to a relative error of
  \<open>1/1024\<close>, which any implementation within a unit in the last place is.
\<close>

theorem scale_exponent_in_table:
  assumes "Log_accurate Log"
  shows "(v \<noteq> 0 \<and> 10 \<le> unat v \<longrightarrow>
            0 \<le> scale_exponent Log (unat v) 1024
            \<and> scale_exponent Log (unat v) 1024 < int (length suffixes))
         \<and> humanizeBytes Log ZeroValue v \<noteq> Inl IndexOutOfRange"
proof
  show "v \<noteq> 0 \<and> 10 \<le> unat v \<longrightarrow>
      0 \<le> scale_exponent Log (unat v) 1024 \<and> scale_exponent Log (unat v) 1024 < int (length suffixes)"
  proof
    assume h: "v \<noteq> 0 \<and> 10 \<le> unat v"
    then have "unat v < 2 ^ 64" using unat_range(2) by blast
    from scale_exponent_bounds [OF assms _ this] h obtain n
      where "scale_exponent Log (unat v) 1024 = int n" and "n \<le> 6" by blast
    then show "0 \<le> scale_exponent Log (unat v) 1024
        \<and> scale_exponent Log (unat v) 1024 < int (length suffixes)"
      by (simp add: suffixes_def)
  qed
  show "humanizeBytes Log ZeroValue v \<noteq> Inl IndexOutOfRange"
  proof (cases "v = 0")
    case True
    then show ?thesis by (simp add: humanizeBytes_def)
  next
    case False
    from humanateBytes_length [OF assms unat_range [OF False]] obtain str
      where "humanateBytes Log (unat v) 1024 suffixes = Inr str" by blast
    then show ?thesis using False by (simp add: humanizeBytes_def)
  qed
qed

theorem scale_exponent_in_table_witness:
  "Log_accurate rounded_ln
   \<and> (- 1 :: 64 word) \<noteq> 0 \<and> 10 \<le> unat (- 1 :: 64 word)
   \<and> 0 \<le> scale_exponent rounded_ln (unat (- 1 :: 64 word)) 1024
   \<and> scale_exponent rounded_ln (unat (- 1 :: 64 word)) 1024 < int (length suffixes)
   \<and> humanizeBytes rounded_ln ''0'' (- 1) \<noteq> Inl IndexOutOfRange"
proof -
  have n: "(- 1 :: 64 word) \<noteq> 0" by simp
  have u: "10 \<le> unat (- 1 :: 64 word)"
    by (simp add: unsigned_minus_1_eq_mask mask_eq_exp_minus_1)
  show ?thesis
    using scale_exponent_in_table [OF rounded_ln_accurate, of "- 1" "''0''"] rounded_ln_accurate n u
    by blast
qed

text \<open>
  C5. For every byte count \<open>b \<ge> 1\<close>, \<open>humanizeBytes(b)\<close> returns a string of 2 to 6
  characters (of 2 to 5, by \<open>humanateBytes_length\<close>), under the same assumption on
  \<open>math.Log\<close>.
\<close>

theorem humanizeBytes_length:
  assumes "Log_accurate Log" and "1 \<le> sint v"
  shows "\<exists>str. humanizeBytes Log ZeroValue v = Inr str \<and> 2 \<le> length str \<and> length str \<le> 6"
proof -
  have v: "v \<noteq> 0" using assms(2) by auto
  from humanateBytes_length [OF assms(1) unat_range [OF v]] obtain str
    where "humanateBytes Log (unat v) 1024 suffixes = Inr str" "2 \<le> length str" "length str \<le> 5"
    by blast
  then show ?thesis using v by (simp add: humanizeBytes_def)
qed

theorem humanizeBytes_length_witness:
  "Log_accurate rounded_ln \<and> 1 \<le> sint (1536 :: 64 word)
   \<and> (\<exists>str. humanizeBytes rounded_ln ''0'' 1536 = Inr str \<and> 2 \<le> length str \<and> length str \<le> 6)"
proof -
  have s: "1 \<le> sint (1536 :: 64 word)" by simp
  show ?thesis
    using humanizeBytes_length [OF rounded_ln_accurate s, of "''0''"] rounded_ln_accurate s
    by blast
qed

subsection \<open>An enclosure of the logarithm of 2\<close>

lemma exp_poly_bounds:
  fixes x :: real
  assumes "0 \<le> x" "x \<le> 1"
  shows "exp_poly x \<le> exp x" and "exp x \<le> exp_poly x + 3 / fact 20 * x ^ 20"
proof -
  from Maclaurin_exp_le [of x 20] obtain t
    where t: "\<bar>t\<bar> \<le> \<bar>x\<bar>" and e: "exp x = exp_poly x + exp t / fact 20 * x ^ 20"
    unfolding exp_poly_def by blast
  have "0 \<le> exp t / fact 20 * x ^ 20" using assms by simp
  then show "exp_poly x \<le> exp x" using e by linarith
  have "t \<le> 1" using t assms by linarith
  then have "exp t \<le> exp 1" by simp
  then have "exp t \<le> 3" using exp_le by linarith
  then have "exp t / fact 20 * x ^ 20 \<le> 3 / fact 20 * x ^ 20"
    using assms by (intro mult_right_mono divide_right_mono) simp_all
  then show "exp x \<le> exp_poly x + 3 / fact 20 * x ^ 20" using e by linarith
qed

lemma fact_20: "fact 20 = (2432902008176640000 :: real)"
  by (simp add: fact_numeral)

lemma exp_poly_unfold:
  "exp_poly x = 1 + x * (1 + x / 2 * (1 + x / 3 * (1 + x / 4 * (1 + x / 5 * (1 + x / 6 * (1 + x / 7 *
     (1 + x / 8 * (1 + x / 9 * (1 + x / 10 * (1 + x / 11 * (1 + x / 12 * (1 + x / 13 * (1 + x / 14 *
     (1 + x / 15 * (1 + x / 16 * (1 + x / 17 * (1 + x / 18 * (1 + x / 19))))))))))))))))))"
  unfolding exp_poly_def
  by (simp add: eval_nat_numeral lessThan_Suc fact_numeral field_simps)

lemma ln2_lower: "799144290325165977 / 2 ^ 60 \<le> ln (2::real)"
proof -
  define L :: real where "L = 799144290325165977 / 2 ^ 60"
  have r: "0 \<le> L" "L \<le> 1" by (simp_all add: L_def)
  have "exp_poly L + 3 / fact 20 * L ^ 20 \<le> 2"
    unfolding exp_poly_unfold fact_20 L_def by (simp add: power_divide)
  then have "exp L \<le> 2" using exp_poly_bounds(2) [OF r] by linarith
  then have "ln (exp L) \<le> ln 2" by (subst ln_le_cancel_iff) simp_all
  then show ?thesis by (simp add: L_def)
qed

lemma ln2_upper: "ln (2::real) \<le> 199786072581291495 / 2 ^ 58"
proof -
  define U :: real where "U = 199786072581291495 / 2 ^ 58"
  have r: "0 \<le> U" "U \<le> 1" by (simp_all add: U_def)
  have "2 \<le> exp_poly U"
    unfolding exp_poly_unfold U_def by simp
  then have "2 \<le> exp U" using exp_poly_bounds(1) [OF r] by linarith
  then have "ln 2 \<le> ln (exp U)" by (subst ln_le_cancel_iff) simp_all
  then show ?thesis by (simp add: U_def)
qed

subsection \<open>Examples of byte counts\<close>

lemma f64_at_ln2_multiples:
  "f64 (10 * (799144290325165977 / 2 ^ 60)) = 7804143460206699 / 2 ^ 50"
  "f64 (10 * (199786072581291495 / 2 ^ 58)) = 7804143460206699 / 2 ^ 50"
  "f64 (30 * (799144290325165977 / 2 ^ 60)) = 365819224697189 / 2 ^ 44"
  "f64 (30 * (199786072581291495 / 2 ^ 58)) = 365819224697189 / 2 ^ 44"
  "f64 (11 * (199786072581291495 / 2 ^ 58)) = 8584557806227369 / 2 ^ 50"
  by code_simp+

lemma f64_between:
  assumes "0 \<le> a" "a \<le> x" "x \<le> b" "f64 a = c" "f64 b = c"
  shows "f64 x = c"
proof -
  have "f64 a \<le> f64 x" using assms(1,2) by (rule f64_mono)
  moreover have "f64 x \<le> f64 b" using assms(1,2,3) by (intro f64_mono) simp_all
  ultimately show ?thesis using assms(4,5) by linarith
qed

lemma rounded_ln_1024: "rounded_ln 1024 = 7804143460206699 / 2 ^ 50"
  unfolding rounded_ln_def ln_1024
proof (rule f64_between)
  show "10 * (799144290325165977 / 2 ^ 60) \<le> 10 * ln (2::real)" using ln2_lower by simp
  show "10 * ln (2::real) \<le> 10 * (199786072581291495 / 2 ^ 58)" using ln2_upper by simp
qed (simp_all only: f64_at_ln2_multiples, simp)

lemma ln_2_30: "ln (1073741824::real) = 30 * ln 2"
proof -
  have "(1073741824::real) = 2 ^ 30" by simp
  then have "ln (1073741824::real) = ln (2 ^ 30)" by simp
  also have "\<dots> = real 30 * ln 2" by (rule ln_realpow)
  finally show ?thesis by simp
qed

lemma rounded_ln_2_30: "rounded_ln 1073741824 = 365819224697189 / 2 ^ 44"
  unfolding rounded_ln_def ln_2_30
proof (rule f64_between)
  show "30 * (799144290325165977 / 2 ^ 60) \<le> 30 * ln (2::real)" using ln2_lower by simp
  show "30 * ln (2::real) \<le> 30 * (199786072581291495 / 2 ^ 58)" using ln2_upper by simp
qed (simp_all only: f64_at_ln2_multiples, simp)

lemma f64_more_consts:
  "f64 1536 = 1536" "f64 1073741824 = 1073741824" "f64 (3 / 2) = 3 / 2"
  by code_simp+

lemma quotient_2_30:
  "fdiv (365819224697189 / 2 ^ 44) (7804143460206699 / 2 ^ 50) = 3"
  by code_simp

lemma scale_exponent_2_30: "scale_exponent rounded_ln 1073741824 1024 = 3"
proof -
  have F: "f64 (real 1073741824) = 1073741824"
    by (simp only: of_nat_numeral f64_more_consts)
  have "logn rounded_ln 1073741824 1024 = 3"
    by (simp only: logn_def rounded_ln_2_30 rounded_ln_1024 quotient_2_30)
  then show ?thesis
    by (simp only: scale_exponent_def F math_Floor_def) simp
qed

lemma ln_1536_bounds: "ln (1024::real) \<le> ln 1536" "ln (1536::real) \<le> 11 * ln 2"
proof -
  show "ln (1024::real) \<le> ln 1536" by (subst ln_le_cancel_iff) simp_all
  have "ln (1536::real) \<le> ln (2 ^ 11)" by (subst ln_le_cancel_iff) simp_all
  also have "\<dots> = real 11 * ln 2" by (rule ln_realpow)
  finally show "ln (1536::real) \<le> 11 * ln 2" by simp
qed

lemma scale_exponent_1536: "scale_exponent rounded_ln 1536 1024 = 1"
proof -
  have F: "f64 (real 1536) = 1536"
    by (simp only: of_nat_numeral f64_more_consts)
  define a where "a = rounded_ln 1536"
  define d where "d = (7804143460206699 / 2 ^ 50 :: real)"
  define u where "u = (8584557806227369 / 2 ^ 50 :: real)"
  have d: "rounded_ln 1024 = d" by (simp only: rounded_ln_1024 d_def)
  have dpos: "0 < d" by (simp add: d_def)
  have l0: "0 \<le> ln (1024::real)" by simp
  have "f64 (ln 1024) \<le> f64 (ln 1536)" using l0 ln_1536_bounds(1) by (rule f64_mono)
  then have a_lo: "d \<le> a" using d by (simp only: a_def rounded_ln_def)
  have "ln (1536::real) \<le> 11 * (199786072581291495 / 2 ^ 58)"
    using ln_1536_bounds(2) ln2_upper by linarith
  moreover have "0 \<le> ln (1536::real)" by simp
  ultimately have "f64 (ln 1536) \<le> f64 (11 * (199786072581291495 / 2 ^ 58))"
    by (intro f64_mono)
  then have a_hi: "a \<le> u"
    by (simp only: f64_at_ln2_multiples a_def rounded_ln_def u_def)
  have q_lo: "1 \<le> a / d" using a_lo dpos by simp
  have "a / d \<le> u / d"
    using a_hi dpos by (intro divide_right_mono) simp_all
  also have "\<dots> \<le> 3 / 2" by (simp add: d_def u_def)
  finally have q_hi: "a / d \<le> 3 / 2" .
  have "f64 1 \<le> f64 (a / d)" using q_lo by (intro f64_mono) simp_all
  then have f_lo: "1 \<le> f64 (a / d)" by (simp only: f64_consts)
  have "f64 (a / d) \<le> f64 (3 / 2)" using q_lo q_hi by (intro f64_mono) simp_all
  then have f_hi: "f64 (a / d) \<le> 3 / 2" by (simp only: f64_more_consts)
  have fl: "\<lfloor>f64 (a / d)\<rfloor> = 1" using f_lo f_hi by linarith
  have "logn rounded_ln 1536 1024 = f64 (a / d)"
    by (simp only: logn_def fdiv_def a_def d)
  then show ?thesis
    by (simp only: scale_exponent_def F math_Floor_def fl) simp
qed

lemma humanateBytes_at:
  assumes "10 \<le> s" "scale_exponent Log s 1024 = int n" "n < 7" "f64 (real s) = F"
  shows "humanateBytes Log s 1024 suffixes =
    Inr (TrimSuffix
          (format_f
            (if fdiv (math_Floor (fadd (fmul (fdiv F (math_Pow 1024 n)) 10) (1 / 2))) 10 < 10
             then 1 else 0)
            (fdiv (math_Floor (fadd (fmul (fdiv F (math_Pow 1024 n)) 10) (1 / 2))) 10))
          ''.0'' @ suffixes ! n)"
  using assms by (simp add: humanateBytes_def Let_def suffixes_def)

lemma render_1536:
  "TrimSuffix
     (format_f
       (if fdiv (math_Floor (fadd (fmul (fdiv 1536 (math_Pow 1024 1)) 10) (1 / 2))) 10 < 10
        then 1 else 0)
       (fdiv (math_Floor (fadd (fmul (fdiv 1536 (math_Pow 1024 1)) 10) (1 / 2))) 10))
     ''.0'' @ suffixes ! 1 = ''1.5K''"
  by code_simp

lemma render_2_30:
  "TrimSuffix
     (format_f
       (if fdiv (math_Floor (fadd (fmul (fdiv 1073741824 (math_Pow 1024 3)) 10) (1 / 2))) 10 < 10
        then 1 else 0)
       (fdiv (math_Floor (fadd (fmul (fdiv 1073741824 (math_Pow 1024 3)) 10) (1 / 2))) 10))
     ''.0'' @ suffixes ! 3 = ''1G''"
  by code_simp

lemma itoa_nat_7: "itoa_nat 7 = ''7''"
  by code_simp

text \<open>
  C4. \<open>humanizeBytes\<close> returns the zero sentinel for 0 and \<open>7 B\<close> for 7, whatever
  \<open>math.Log\<close> is; with \<open>math.Log\<close> the correctly rounded logarithm it returns \<open>1.5K\<close> for
  1536 and \<open>1G\<close> for 1073741824. At \<open>2\<^sup>3\<^sup>0\<close> the two logarithms round to floats whose
  quotient rounds to 3 exactly, so the exponent is 3 and the scaled value 1.
\<close>

theorem humanizeBytes_examples:
  "humanizeBytes Log ZeroValue 0 = Inr ZeroValue
   \<and> humanizeBytes Log ZeroValue 7 = Inr ''7 B''
   \<and> humanizeBytes rounded_ln ZeroValue 1536 = Inr ''1.5K''
   \<and> humanizeBytes rounded_ln ZeroValue 1073741824 = Inr ''1G''"
proof -
  have a: "humanizeBytes Log ZeroValue 0 = Inr ZeroValue"
    by (simp add: humanizeBytes_def)
  have b: "humanizeBytes Log ZeroValue 7 = Inr ''7 B''"
    by (simp add: humanizeBytes_def humanateBytes_def itoa_nat_7)
  have F1: "f64 (real 1536) = 1536" by (simp only: of_nat_numeral f64_more_consts)
  have e1: "scale_exponent rounded_ln 1536 1024 = int 1" using scale_exponent_1536 by simp
  have "humanateBytes rounded_ln 1536 1024 suffixes = Inr ''1.5K''"
    using humanateBytes_at [OF _ e1 _ F1] by (simp only: render_1536)
  then have c: "humanizeBytes rounded_ln ZeroValue 1536 = Inr ''1.5K''"
    by (simp add: humanizeBytes_def)
  have F3: "f64 (real 1073741824) = 1073741824" by (simp only: of_nat_numeral f64_more_consts)
  have e3: "scale_exponent rounded_ln 1073741824 1024 = int 3" using scale_exponent_2_30 by simp
  have "humanateBytes rounded_ln 1073741824 1024 suffixes = Inr ''1G''"
    using humanateBytes_at [OF _ e3 _ F3] by (simp only: render_2_30)
  then have d: "humanizeBytes rounded_ln ZeroValue 1073741824 = Inr ''1G''"
    by (simp add: humanizeBytes_def)
  show ?thesis using a b c d by blast
qed

end
